theory Spec2Isabelle
  imports Main
begin

section \<open>Functional options (patterns/foptions.go)\<close>

text \<open>
  Go's \<^verbatim>\<open>time.Duration\<close> is a count of nanoseconds and Go's \<^verbatim>\<open>int\<close> a machine
  integer. The constructors below only store such values (no arithmetic is done on a
  stored value), so both are modelled by \<^typ>\<open>int\<close>; the constants written in the
  source (\<^verbatim>\<open>90 * time.Second\<close> and the like) are far below the 64-bit range.
\<close>

type_synonym Duration = int

definition Second :: Duration where
  "Second = 1000000000"

text \<open>A run-time panic of the Go program, as a value.\<close>

datatype panic =
    NilDereference
  | SendOnClosedChannel
  | CloseOfClosedChannel
  | NegativeWaitGroupCounter

datatype ProxyFunc = ProxyNil | ProxyFromEnvironment

record Dialer =
  Dialer_Timeout :: Duration
  Dialer_KeepAlive :: Duration
  Dialer_DualStack :: bool

text \<open>
  \<^verbatim>\<open>http.Transport\<close>, with the fields the source sets or its options write; a field
  the composite literal leaves out has Go's zero value.
\<close>

record http_Transport =
  Proxy :: ProxyFunc
  DialContext :: Dialer
  ForceAttemptHTTP2 :: bool
  MaxIdleConns :: int
  MaxIdleConnsPerHost :: int
  MaxConnsPerHost :: int
  IdleConnTimeout :: Duration
  TLSHandshakeTimeout :: Duration
  ExpectContinueTimeout :: Duration

text \<open>
  \<^verbatim>\<open>TransportWrapper.Tr\<close> is a pointer \<^verbatim>\<open>*http.Transport\<close>: \<open>None\<close> is the nil
  pointer. The options write through the pointer, and a write through nil panics.
\<close>

record TransportWrapper =
  Tr :: "http_Transport option"

text \<open>
  The interface value held by \<^verbatim>\<open>http.Client.Transport\<close>: the package's default
  transport, or the pointer taken from a \<^verbatim>\<open>TransportWrapper\<close> (possibly nil).
  The transport is stored by value here: nothing below writes to a transport after it
  was handed to a client.
\<close>

datatype RoundTripper = DefaultTransport | TransportPtr "http_Transport option"

record http_Client =
  Client_Transport :: RoundTripper
  CheckRedirect :: "unit option"
  Jar :: "unit option"
  Client_Timeout :: Duration

record ClientWrapper =
  Cl :: http_Client

text \<open>
  An option is a Go function on a pointer to the wrapper. It is modelled as a state
  transformer that returns the updated wrapper or the panic it raised; a nil function
  value, whose call panics, is the transformer that always returns the panic.
\<close>

type_synonym ClientOption = "ClientWrapper \<Rightarrow> panic + ClientWrapper"

type_synonym TransportOption = "TransportWrapper \<Rightarrow> panic + TransportWrapper"

text \<open>The loop \<^verbatim>\<open>for _, opt := range opts { opt(cl) }\<close>; a panic ends it.\<close>

fun apply_options :: "('w \<Rightarrow> panic + 'w) list \<Rightarrow> 'w \<Rightarrow> panic + 'w" where
  "apply_options [] w = Inr w"
| "apply_options (opt # opts) w =
     (case opt w of Inl p \<Rightarrow> Inl p | Inr w' \<Rightarrow> apply_options opts w')"

definition default_client :: http_Client where
  "default_client =
     \<lparr>Client_Transport = DefaultTransport, CheckRedirect = None, Jar = None,
      Client_Timeout = 0\<rparr>"

definition NewClientWrapper :: "ClientOption list \<Rightarrow> panic + ClientWrapper" where
  "NewClientWrapper opts = apply_options opts \<lparr>Cl = default_client\<rparr>"

definition Timeout :: "Duration \<Rightarrow> ClientOption" where
  "Timeout t = (\<lambda>c. Inr (c\<lparr>Cl := (Cl c)\<lparr>Client_Timeout := t\<rparr>\<rparr>))"

text \<open>\<^verbatim>\<open>Transport(tr)\<close> reads \<^verbatim>\<open>tr.Tr\<close> when the option runs; \<open>tr\<close> may be nil.\<close>

definition Transport :: "TransportWrapper option \<Rightarrow> ClientOption" where
  "Transport tr =
     (\<lambda>c. case tr of
            None \<Rightarrow> Inl NilDereference
          | Some w \<Rightarrow> Inr (c\<lparr>Cl := (Cl c)\<lparr>Client_Transport := TransportPtr (Tr w)\<rparr>\<rparr>))"

definition default_transport :: http_Transport where
  "default_transport =
     \<lparr>Proxy = ProxyFromEnvironment,
      DialContext =
        \<lparr>Dialer_Timeout = 30 * Second, Dialer_KeepAlive = 30 * Second,
         Dialer_DualStack = True\<rparr>,
      ForceAttemptHTTP2 = True,
      MaxIdleConns = 100,
      MaxIdleConnsPerHost = 0,
      MaxConnsPerHost = 0,
      IdleConnTimeout = 90 * Second,
      TLSHandshakeTimeout = 10 * Second,
      ExpectContinueTimeout = 1 * Second\<rparr>"

definition NewTransportWrapper :: "TransportOption list \<Rightarrow> panic + TransportWrapper" where
  "NewTransportWrapper opts = apply_options opts \<lparr>Tr = Some default_transport\<rparr>"

text \<open>A write \<^verbatim>\<open>t.Tr.F = v\<close> through the wrapper's pointer.\<close>

definition write_Tr ::
  "(http_Transport \<Rightarrow> http_Transport) \<Rightarrow> TransportOption" where
  "write_Tr upd =
     (\<lambda>t. case Tr t of
            None \<Rightarrow> Inl NilDereference
          | Some tr \<Rightarrow> Inr (t\<lparr>Tr := Some (upd tr)\<rparr>))"

definition MaxIdleCons :: "int \<Rightarrow> TransportOption" where
  "MaxIdleCons ic = write_Tr (\<lambda>tr. tr\<lparr>MaxIdleConns := ic\<rparr>)"

definition MaxIdleConsPerHost :: "int \<Rightarrow> TransportOption" where
  "MaxIdleConsPerHost ich = write_Tr (\<lambda>tr. tr\<lparr>MaxIdleConnsPerHost := ich\<rparr>)"

definition MaxConsPerHost :: "int \<Rightarrow> TransportOption" where
  "MaxConsPerHost cph = write_Tr (\<lambda>tr. tr\<lparr>MaxConnsPerHost := cph\<rparr>)"

definition IdleConTimeout :: "Duration \<Rightarrow> TransportOption" where
  "IdleConTimeout ict = write_Tr (\<lambda>tr. tr\<lparr>IdleConnTimeout := ict\<rparr>)"

text \<open>
  Running an option on the result of a construction that may have panicked: the
  panic is kept, otherwise the option runs.
\<close>

definition then_option :: "panic + 'w \<Rightarrow> ('w \<Rightarrow> panic + 'w) \<Rightarrow> panic + 'w" where
  "then_option r opt = (case r of Inl p \<Rightarrow> Inl p | Inr w \<Rightarrow> opt w)"

section \<open>The limiter (patterns/limiter/client-limiter.go)\<close>

text \<open>
  The program is a set of goroutines over shared channels and counters. It is
  modelled as a transition system: a state holds the controller's fields and the
  program point of every goroutine, an event names the goroutine that takes its next
  step, and \<open>step\<close> returns the next state, or \<open>None\<close> when that goroutine cannot
  move (it is blocked, or it does not exist). Statements that cannot block and touch
  no channel in between are taken in one step.
\<close>

subsection \<open>Channels\<close>

text \<open>
  The job queue is \<^verbatim>\<open>make(chan int, 10)\<close>: a buffer and a closed flag. A receive
  takes the oldest buffered value; on an empty buffer it reports the closure when the
  channel is closed and blocks otherwise. A send appends when there is room and
  blocks when the buffer is full; on a closed channel it panics.
\<close>

datatype recv = Blocked | Value int | ClosedEmpty

definition chan_recv :: "int list \<Rightarrow> bool \<Rightarrow> recv" where
  "chan_recv buf cl = (case buf of x # _ \<Rightarrow> Value x | [] \<Rightarrow> if cl then ClosedEmpty else Blocked)"

datatype send = SendBlocked | Sent "int list" | SendPanic

definition chan_send :: "nat \<Rightarrow> int list \<Rightarrow> bool \<Rightarrow> int \<Rightarrow> send" where
  "chan_send capacity buf cl x =
     (if cl then SendPanic
      else if length buf < capacity then Sent (buf @ [x])
      else SendBlocked)"

subsection \<open>State\<close>

text \<open>Program points of a worker (\<^verbatim>\<open>startWorker\<close>).\<close>

datatype wpc =
    AtRange
  | AtSelect int
  | InDone int
  | InDefault int
  | Returned

text \<open>
  Program points of a \<^verbatim>\<open>/stop\<close> handler: blocked in \<^verbatim>\<open>c.done <- struct{}{}\<close> on
  the channel it read from \<^verbatim>\<open>c.done\<close>, at \<^verbatim>\<open>close(c.done)\<close> once a worker has
  received its message, returned, or panicked.
\<close>

datatype hpc =
    Sending nat
  | AtClose
  | Finished
  | Panicked panic

text \<open>
  Program points of \<^verbatim>\<open>main\<close>, from its call of \<^verbatim>\<open>ctrl.wgroup()\<close> on (the HTTP
  server and the producer are already started then): the loop of \<^verbatim>\<open>wgroup\<close> with
  its counter, \<^verbatim>\<open>wg.Wait()\<close>, \<^verbatim>\<open>close(work)\<close>, and the return of \<^verbatim>\<open>main\<close>.
\<close>

datatype mpc =
    InWgroup nat
  | AtWait
  | AtCloseWork
  | AtReturn

text \<open>
  How the process ended: \<^verbatim>\<open>os.Exit\<close> (also through \<^verbatim>\<open>log.Fatal\<close>) or the return
  of \<^verbatim>\<open>main\<close> with a status, or a panic that no one recovers.
\<close>

datatype halt = Exit int | Crash panic

text \<open>What a run has done so far, in order; the trace is written, never read.\<close>

datatype obs =
    Enqueued int
  | Dequeued nat int
  | Executed nat int
  | Failed nat int
  | Drained nat
  | StopCalled nat

text \<open>
  The state. \<open>queue\<close>, \<open>done_ch\<close> and \<open>limit\<close> are the controller's fields: the buffer
  of the job queue (with \<open>cap\<close> and \<open>qclosed\<close>), the done channel that \<^verbatim>\<open>c.done\<close>
  currently points to, and the counter of the wait group. Done channels are numbered
  in the order they are made; \<open>closed_chans\<close> holds those that are closed. \<open>prod_i\<close>
  and \<open>prod_n\<close> are the producer's loop counter and bound, \<open>wg\<close> the counter of the
  wait group \<^verbatim>\<open>main\<close> waits on. Workers and stop handlers are numbered in the order
  they are started; \<open>wgroups\<close> holds the loop counter of every \<^verbatim>\<open>wgroup\<close> that a
  \<^verbatim>\<open>/start\<close> request runs in a goroutine of its own.
\<close>

record state =
  cap :: nat
  queue :: "int list"
  qclosed :: bool
  prod_i :: int
  prod_n :: int
  producer_live :: bool
  wg :: int
  done_ch :: nat
  next_chan :: nat
  closed_chans :: "nat set"
  stops :: "hpc list"
  workers :: "wpc list"
  wgroups :: "nat list"
  mainpc :: mpc
  limit :: int
  halted :: "halt option"
  trace :: "obs list"

text \<open>
  The state when \<^verbatim>\<open>main\<close> reaches \<^verbatim>\<open>ctrl.wgroup()\<close>, for a queue of capacity \<open>c\<close>
  and a producer that sends the jobs \<open>0, ..., n - 1\<close>.
\<close>

definition initial :: "nat \<Rightarrow> int \<Rightarrow> state" where
  "initial c n =
     \<lparr>cap = c, queue = [], qclosed = False, prod_i = 0, prod_n = n, producer_live = True,
      wg = 1, done_ch = 0, next_chan = 1, closed_chans = {}, stops = [], workers = [],
      wgroups = [], mainpc = InWgroup 0, limit = 0, halted = None, trace = []\<rparr>"

text \<open>The program as written: \<^verbatim>\<open>make(chan int, 10)\<close> and \<^verbatim>\<open>i < 10000\<close>.\<close>

definition init :: state where
  "init = initial 10 10000"

subsection \<open>The goroutines\<close>

datatype get_result = GetOk | GetErr

text \<open>
  \<^verbatim>\<open>request\<close>, for worker \<open>w\<close> and job \<open>i\<close>: the result of \<^verbatim>\<open>c.cl.Cl.Get\<close> is the
  environment's choice. On an error the function prints it and calls
  \<^verbatim>\<open>os.Exit(1)\<close>; otherwise it reads and prints the body.
\<close>

definition request :: "get_result \<Rightarrow> nat \<Rightarrow> int \<Rightarrow> state \<Rightarrow> state" where
  "request r w i s =
     (case r of
        GetErr \<Rightarrow> s\<lparr>halted := Some (Exit 1), trace := trace s @ [Failed w i]\<rparr>
      | GetOk \<Rightarrow> s\<lparr>trace := trace s @ [Executed w i]\<rparr>)"

text \<open>
  The end of \<^verbatim>\<open>startWorker\<close>: the deferred \<^verbatim>\<open>c.limit.Done()\<close>, which panics when
  the counter would become negative, and the end of the goroutine.
\<close>

definition limit_Done :: "nat \<Rightarrow> state \<Rightarrow> state" where
  "limit_Done w s =
     (if limit s - 1 < 0 then s\<lparr>halted := Some (Crash NegativeWaitGroupCounter)\<rparr>
      else s\<lparr>limit := limit s - 1, workers := (workers s)[w := Returned]\<rparr>)"

text \<open>\<^verbatim>\<open>c.limit.Add(1); go c.startWorker()\<close>, as \<^verbatim>\<open>wgroup\<close> and \<^verbatim>\<open>addWorker\<close> do.\<close>

definition spawn_worker :: "state \<Rightarrow> state" where
  "spawn_worker s = s\<lparr>limit := limit s + 1, workers := workers s @ [AtRange]\<rparr>"

text \<open>The receive of \<^verbatim>\<open>for ww := range c.queue\<close>; the loop ends on a drained queue.\<close>

definition startWorker_range :: "nat \<Rightarrow> state \<Rightarrow> state option" where
  "startWorker_range w s =
     (case chan_recv (queue s) (qclosed s) of
        Blocked \<Rightarrow> None
      | Value ww \<Rightarrow>
          Some (s\<lparr>queue := tl (queue s), workers := (workers s)[w := AtSelect ww],
                  trace := trace s @ [Dequeued w ww]\<rparr>)
      | ClosedEmpty \<Rightarrow> Some (limit_Done w (s\<lparr>trace := trace s @ [Drained w]\<rparr>)))"

text \<open>The first stop handler blocked in a send on channel \<open>ch\<close>, if there is one.\<close>

fun first_sender :: "nat \<Rightarrow> hpc list \<Rightarrow> nat option" where
  "first_sender ch [] = None"
| "first_sender ch (p # ps) =
     (if p = Sending ch then Some 0 else map_option Suc (first_sender ch ps))"

text \<open>
  The \<^verbatim>\<open>select\<close> with \<^verbatim>\<open>case <-c.done\<close> and \<^verbatim>\<open>default\<close>: the receive can proceed
  when a sender is blocked on the channel (the worker takes its message and the sender
  goes on) or the channel is closed; otherwise the default branch is taken.
\<close>

definition startWorker_select :: "nat \<Rightarrow> int \<Rightarrow> state \<Rightarrow> state" where
  "startWorker_select w ww s =
     (case first_sender (done_ch s) (stops s) of
        Some h \<Rightarrow> s\<lparr>stops := (stops s)[h := AtClose], workers := (workers s)[w := InDone ww]\<rparr>
      | None \<Rightarrow>
          if done_ch s \<in> closed_chans s then s\<lparr>workers := (workers s)[w := InDone ww]\<rparr>
          else s\<lparr>workers := (workers s)[w := InDefault ww]\<rparr>)"

text \<open>
  The two branches of the \<^verbatim>\<open>select\<close>: \<^verbatim>\<open>c.request(ww); return\<close> after a receive
  from the done channel, and \<^verbatim>\<open>c.request(ww)\<close> followed by the next iteration in
  the default branch. Nothing follows an \<^verbatim>\<open>os.Exit\<close>.
\<close>

definition startWorker_done :: "get_result \<Rightarrow> nat \<Rightarrow> int \<Rightarrow> state \<Rightarrow> state" where
  "startWorker_done r w ww s =
     (let s' = request r w ww s in if halted s' = None then limit_Done w s' else s')"

definition startWorker_default :: "get_result \<Rightarrow> nat \<Rightarrow> int \<Rightarrow> state \<Rightarrow> state" where
  "startWorker_default r w ww s =
     (let s' = request r w ww s
      in if halted s' = None then s'\<lparr>workers := (workers s')[w := AtRange]\<rparr> else s')"

text \<open>
  A \<^verbatim>\<open>/stop\<close> request starts handler number \<open>length (stops s)\<close>, which reads
  \<^verbatim>\<open>c.done\<close> and sends on it. The channel is unbuffered and its only receivers are
  the workers' selects, which never wait, so the send blocks; on a closed channel it
  panics. The HTTP server recovers the panic of a handler, so the panic ends the
  handler and not the process.
\<close>

definition stop_send :: "state \<Rightarrow> state" where
  "stop_send s =
     (let s' = s\<lparr>trace := trace s @ [StopCalled (length (stops s))]\<rparr>
      in if done_ch s \<in> closed_chans s
         then s'\<lparr>stops := stops s @ [Panicked SendOnClosedChannel]\<rparr>
         else s'\<lparr>stops := stops s @ [Sending (done_ch s)]\<rparr>)"

text \<open>
  The rest of the handler, once its message was received: \<^verbatim>\<open>close(c.done)\<close>, on the
  channel \<^verbatim>\<open>c.done\<close> points to now, the print and the return. Closing a closed channel
  panics; closing a channel wakes the senders blocked on it, each with a panic.
\<close>

definition stop_close :: "nat \<Rightarrow> state \<Rightarrow> state" where
  "stop_close h s =
     (if done_ch s \<in> closed_chans s
      then s\<lparr>stops := (stops s)[h := Panicked CloseOfClosedChannel]\<rparr>
      else s\<lparr>closed_chans := insert (done_ch s) (closed_chans s),
             stops := (map (\<lambda>p. if p = Sending (done_ch s)
                                 then Panicked SendOnClosedChannel else p) (stops s))
                      [h := Finished]\<rparr>)"

text \<open>
  The \<^verbatim>\<open>/start\<close> handler: \<^verbatim>\<open>c.done = make(chan struct{})\<close> and \<^verbatim>\<open>go c.wgroup()\<close>.
\<close>

definition start :: "state \<Rightarrow> state" where
  "start s =
     s\<lparr>done_ch := next_chan s, next_chan := next_chan s + 1, wgroups := wgroups s @ [0]\<rparr>"

text \<open>The \<^verbatim>\<open>/worker/add\<close> handler.\<close>

definition addWorker :: "state \<Rightarrow> state" where
  "addWorker s = spawn_worker s"

text \<open>The producer: \<^verbatim>\<open>work <- i\<close> while \<^verbatim>\<open>i < 10000\<close>, then the deferred \<^verbatim>\<open>wg.Done()\<close>.\<close>

definition producer_send :: "state \<Rightarrow> state option" where
  "producer_send s =
     (if producer_live s \<and> prod_i s < prod_n s
      then (case chan_send (cap s) (queue s) (qclosed s) (prod_i s) of
              SendBlocked \<Rightarrow> None
            | SendPanic \<Rightarrow> Some (s\<lparr>halted := Some (Crash SendOnClosedChannel)\<rparr>)
            | Sent buf \<Rightarrow>
                Some (s\<lparr>queue := buf, prod_i := prod_i s + 1,
                        trace := trace s @ [Enqueued (prod_i s)]\<rparr>))
      else None)"

definition producer_return :: "state \<Rightarrow> state option" where
  "producer_return s =
     (if producer_live s \<and> \<not> prod_i s < prod_n s
      then Some (if wg s - 1 < 0 then s\<lparr>halted := Some (Crash NegativeWaitGroupCounter)\<rparr>
                 else s\<lparr>wg := wg s - 1, producer_live := False\<rparr>)
      else None)"

text \<open>
  \<^verbatim>\<open>main\<close>: the five iterations of \<^verbatim>\<open>wgroup\<close>, \<^verbatim>\<open>wg.Wait()\<close> (blocked while the
  counter is not 0) and \<^verbatim>\<open>close(work)\<close>. The return of \<^verbatim>\<open>main\<close>, which ends the
  process, is an event of its own.
\<close>

definition main_step :: "state \<Rightarrow> state option" where
  "main_step s =
     (case mainpc s of
        InWgroup i \<Rightarrow>
          Some (if i < 5 then (spawn_worker s)\<lparr>mainpc := InWgroup (i + 1)\<rparr>
                else s\<lparr>mainpc := AtWait\<rparr>)
      | AtWait \<Rightarrow> if wg s = 0 then Some (s\<lparr>mainpc := AtCloseWork\<rparr>) else None
      | AtCloseWork \<Rightarrow>
          Some (if qclosed s then s\<lparr>halted := Some (Crash CloseOfClosedChannel)\<rparr>
                else s\<lparr>qclosed := True, mainpc := AtReturn\<rparr>)
      | AtReturn \<Rightarrow> None)"

definition main_return :: "state \<Rightarrow> state option" where
  "main_return s =
     (if mainpc s = AtReturn then Some (s\<lparr>halted := Some (Exit 0)\<rparr>) else None)"

text \<open>One iteration of a \<^verbatim>\<open>wgroup\<close> that runs in a goroutine started by \<^verbatim>\<open>/start\<close>.\<close>

definition wgroup_iter :: "nat \<Rightarrow> state \<Rightarrow> state option" where
  "wgroup_iter k s =
     (if k < length (wgroups s) \<and> wgroups s ! k < 5
      then Some ((spawn_worker s)\<lparr>wgroups := (wgroups s)[k := wgroups s ! k + 1]\<rparr>)
      else None)"

subsection \<open>Events and runs\<close>

text \<open>
  \<open>ServerFail\<close> is \<^verbatim>\<open>http.ListenAndServe\<close> returning, which \<^verbatim>\<open>log.Fatal\<close> turns
  into an exit with status 1.
\<close>

datatype event =
    Send
  | ProducerReturn
  | Main
  | MainReturn
  | Wgroup nat
  | Range nat
  | Select nat
  | Request nat get_result
  | StopRequest
  | StopClose nat
  | StartRequest
  | AddWorkerRequest
  | ServerFail

definition worker_at :: "state \<Rightarrow> nat \<Rightarrow> wpc option" where
  "worker_at s w = (if w < length (workers s) then Some (workers s ! w) else None)"

definition stop_at :: "state \<Rightarrow> nat \<Rightarrow> hpc option" where
  "stop_at s h = (if h < length (stops s) then Some (stops s ! h) else None)"

definition step :: "event \<Rightarrow> state \<Rightarrow> state option" where
  "step e s =
     (if halted s \<noteq> None then None
      else case e of
        Send \<Rightarrow> producer_send s
      | ProducerReturn \<Rightarrow> producer_return s
      | Main \<Rightarrow> main_step s
      | MainReturn \<Rightarrow> main_return s
      | Wgroup k \<Rightarrow> wgroup_iter k s
      | Range w \<Rightarrow>
          (case worker_at s w of Some AtRange \<Rightarrow> startWorker_range w s | _ \<Rightarrow> None)
      | Select w \<Rightarrow>
          (case worker_at s w of
             Some (AtSelect ww) \<Rightarrow> Some (startWorker_select w ww s)
           | _ \<Rightarrow> None)
      | Request w r \<Rightarrow>
          (case worker_at s w of
             Some (InDone ww) \<Rightarrow> Some (startWorker_done r w ww s)
           | Some (InDefault ww) \<Rightarrow> Some (startWorker_default r w ww s)
           | _ \<Rightarrow> None)
      | StopRequest \<Rightarrow> Some (stop_send s)
      | StopClose h \<Rightarrow>
          (case stop_at s h of Some AtClose \<Rightarrow> Some (stop_close h s) | _ \<Rightarrow> None)
      | StartRequest \<Rightarrow> Some (start s)
      | AddWorkerRequest \<Rightarrow> Some (addWorker s)
      | ServerFail \<Rightarrow> Some (s\<lparr>halted := Some (Exit 1)\<rparr>))"

fun run :: "event list \<Rightarrow> state \<Rightarrow> state option" where
  "run [] s = Some s"
| "run (e # es) s = (case step e s of None \<Rightarrow> None | Some s' \<Rightarrow> run es s')"

subsection \<open>Observations on a trace, and the invariants of the program\<close>

text \<open>The jobs sent to the queue, the jobs received from it, and the workers whose
  range loop ended on the drained queue, each in the order of the trace.\<close>

fun enqueued :: "obs list \<Rightarrow> int list" where
  "enqueued [] = []"
| "enqueued (Enqueued j # tr) = j # enqueued tr"
| "enqueued (_ # tr) = enqueued tr"

fun dequeued :: "obs list \<Rightarrow> int list" where
  "dequeued [] = []"
| "dequeued (Dequeued w j # tr) = j # dequeued tr"
| "dequeued (_ # tr) = dequeued tr"

fun drained :: "obs list \<Rightarrow> nat list" where
  "drained [] = []"
| "drained (Drained w # tr) = w # drained tr"
| "drained (_ # tr) = drained tr"

text \<open>The number of workers that have not returned.\<close>

definition live :: "wpc list \<Rightarrow> nat" where
  "live ws = length (filter (\<lambda>p. p \<noteq> Returned) ws)"

text \<open>
  The queue: it holds at most \<open>cap\<close> jobs; the jobs sent are the jobs received followed
  by the buffer; they are the numbers from the producer's first job \<open>a\<close> up to its
  counter; a range loop has ended only on a closed and empty queue.
\<close>

definition invQ :: "int \<Rightarrow> state \<Rightarrow> bool" where
  "invQ a s =
     (length (queue s) \<le> cap s
      \<and> enqueued (trace s) = dequeued (trace s) @ queue s
      \<and> enqueued (trace s) = [a..prod_i s - 1]
      \<and> a \<le> prod_i s
      \<and> (drained (trace s) = [] \<or> qclosed s \<and> queue s = []))"

text \<open>
  The producer and \<open>main\<close>: \<open>wg\<close> counts the running producer; \<open>main\<close> is past
  \<^verbatim>\<open>wg.Wait()\<close> only when the producer has returned, which it does only when its loop
  is over; the queue is closed exactly when \<open>main\<close> is past \<^verbatim>\<open>close(work)\<close>.
\<close>

definition invP :: "state \<Rightarrow> bool" where
  "invP s =
     (wg s = (if producer_live s then 1 else 0)
      \<and> (mainpc s = AtCloseWork \<or> mainpc s = AtReturn \<longrightarrow> \<not> producer_live s)
      \<and> qclosed s = (mainpc s = AtReturn)
      \<and> (producer_live s \<or> \<not> prod_i s < prod_n s))"

text \<open>The wait group \<open>limit\<close> counts the workers that have not returned.\<close>

definition invL :: "state \<Rightarrow> bool" where
  "invL s = (limit s = int (live (workers s)))"

text \<open>The process has not ended by a panic.\<close>

definition no_crash :: "state \<Rightarrow> bool" where
  "no_crash s = (case halted s of Some (Crash p) \<Rightarrow> False | _ \<Rightarrow> True)"

text \<open>The invariants together.\<close>

definition invariant :: "int \<Rightarrow> state \<Rightarrow> bool" where
  "invariant a s = (invQ a s \<and> invP s \<and> invL s \<and> no_crash s)"

text \<open>The jobs worker \<open>w\<close> has executed, and the jobs it has taken from the queue.\<close>

fun executed_by :: "nat \<Rightarrow> obs list \<Rightarrow> int list" where
  "executed_by w [] = []"
| "executed_by w (Executed w' j # tr) = (if w' = w then j # executed_by w tr else executed_by w tr)"
| "executed_by w (_ # tr) = executed_by w tr"

fun dequeued_by :: "nat \<Rightarrow> obs list \<Rightarrow> int list" where
  "dequeued_by w [] = []"
| "dequeued_by w (Dequeued w' j # tr) = (if w' = w then j # dequeued_by w tr else dequeued_by w tr)"
| "dequeued_by w (_ # tr) = dequeued_by w tr"

text \<open>The part of a trace after the first call of \<^verbatim>\<open>/stop\<close>.\<close>

fun after_stop :: "obs list \<Rightarrow> obs list" where
  "after_stop [] = []"
| "after_stop (StopCalled h # tr) = tr"
| "after_stop (_ # tr) = after_stop tr"

text \<open>
  \<^verbatim>\<open>wgroup\<close> run without interruption: \<^verbatim>\<open>for i := 0; i < 5; i++\<close> around
  \<^verbatim>\<open>c.limit.Add(1); go c.startWorker()\<close>.
\<close>

function wgroup_loop :: "nat \<Rightarrow> state \<Rightarrow> state" where
  "wgroup_loop i s = (if i < 5 then wgroup_loop (i + 1) (spawn_worker s) else s)"
  by pat_completeness auto
termination
  by (relation "measure (\<lambda>(i, s). 5 - i)") auto

definition wgroup :: "state \<Rightarrow> state" where
  "wgroup s = wgroup_loop 0 s"

subsection \<open>A scenario: capacity 2, one worker, jobs 1, 2, 3\<close>

text \<open>
  A queue of capacity 2, a producer that sends the jobs 1, 2 and 3, one worker started
  by \<^verbatim>\<open>c.limit.Add(1); go c.startWorker()\<close>, and \<open>main\<close> at \<^verbatim>\<open>wg.Wait()\<close>, which
  closes the queue once the producer has returned.
\<close>

definition scenario :: state where
  "scenario =
     \<lparr>cap = 2, queue = [], qclosed = False, prod_i = 1, prod_n = 4, producer_live = True,
      wg = 1, done_ch = 0, next_chan = 1, closed_chans = {}, stops = [],
      workers = [AtRange], wgroups = [], mainpc = AtWait, limit = 1, halted = None,
      trace = []\<rparr>"

text \<open>
  The events of the scenario: the producer, \<open>main\<close> up to and including
  \<^verbatim>\<open>close(work)\<close>, and the worker with downstream calls that succeed. No request
  reaches the HTTP server (Stop is never called).
\<close>

fun scenario_event :: "event \<Rightarrow> bool" where
  "scenario_event Send = True"
| "scenario_event ProducerReturn = True"
| "scenario_event Main = True"
| "scenario_event (Range w) = True"
| "scenario_event (Select w) = True"
| "scenario_event (Request w GetOk) = True"
| "scenario_event _ = False"

text \<open>No goroutine of the scenario can take a step.\<close>

definition quiescent :: "state \<Rightarrow> bool" where
  "quiescent s =
     (step Send s = None \<and> step ProducerReturn s = None \<and> step Main s = None
      \<and> step (Range 0) s = None \<and> step (Select 0) s = None
      \<and> step (Request 0 GetOk) s = None)"

text \<open>The job a worker holds.\<close>

fun inflight :: "wpc \<Rightarrow> int list" where
  "inflight AtRange = []"
| "inflight (AtSelect ww) = [ww]"
| "inflight (InDone ww) = [ww]"
| "inflight (InDefault ww) = [ww]"
| "inflight Returned = []"

fun in_done :: "wpc \<Rightarrow> bool" where
  "in_done (InDone ww) = True"
| "in_done _ = False"

text \<open>What holds in every state of the scenario, beyond the invariants of the program.\<close>

definition scenario_inv :: "state \<Rightarrow> bool" where
  "scenario_inv s =
     (halted s = None \<and> cap s = 2 \<and> prod_n s = 4 \<and> prod_i s \<le> 4
      \<and> stops s = [] \<and> closed_chans s = {} \<and> length (workers s) = 1
      \<and> (mainpc s = AtWait \<or> mainpc s = AtCloseWork \<or> mainpc s = AtReturn)
      \<and> executed_by 0 (trace s) @ inflight (workers s ! 0) = dequeued (trace s)
      \<and> \<not> in_done (workers s ! 0)
      \<and> (workers s ! 0 \<noteq> Returned \<or> drained (trace s) \<noteq> []))"

text \<open>The number of steps the scenario still has to take.\<close>

fun steps_of_worker :: "wpc \<Rightarrow> nat" where
  "steps_of_worker AtRange = 1"
| "steps_of_worker (AtSelect ww) = 3"
| "steps_of_worker (InDone ww) = 1"
| "steps_of_worker (InDefault ww) = 2"
| "steps_of_worker Returned = 0"

fun steps_of_main :: "mpc \<Rightarrow> nat" where
  "steps_of_main (InWgroup i) = 3"
| "steps_of_main AtWait = 2"
| "steps_of_main AtCloseWork = 1"
| "steps_of_main AtReturn = 0"

definition steps_left :: "state \<Rightarrow> nat" where
  "steps_left s =
     4 * nat (prod_n s - prod_i s) + 3 * length (queue s) + steps_of_worker (workers s ! 0)
     + (if producer_live s then 1 else 0) + steps_of_main (mainpc s)"

text \<open>
  The number of jobs a worker can still take from the queue while the done channel
  stays closed: one when it is at (or will come back to) its receive, none when it
  holds its last job or has returned. A worker that is not yet started owes one.
\<close>

fun owed :: "wpc \<Rightarrow> nat" where
  "owed AtRange = 1"
| "owed (InDefault ww) = 1"
| "owed (AtSelect ww) = 0"
| "owed (InDone ww) = 0"
| "owed Returned = 0"

definition jobs_owed :: "state \<Rightarrow> nat \<Rightarrow> nat" where
  "jobs_owed s w = (case worker_at s w of None \<Rightarrow> 1 | Some p \<Rightarrow> owed p)"

section \<open>Properties of the functional options\<close>

lemma apply_options_append:
  "apply_options (xs @ ys) w = (case apply_options xs w of Inl p \<Rightarrow> Inl p | Inr w' \<Rightarrow> apply_options ys w')"
  by (induction xs arbitrary: w) (auto split: sum.splits)

lemma apply_options_snoc:
  "apply_options (opts @ [opt]) w = then_option (apply_options opts w) opt"
  by (simp add: apply_options_append then_option_def split: sum.splits)

lemma apply_options_Timeout_Transports:
  "apply_options (Timeout b # map Transport trs) c = Inr c' \<Longrightarrow> Client_Timeout (Cl c') = b"
proof (induction trs arbitrary: c c' rule: rev_induct)
  case Nil
  then show ?case by (auto simp: Timeout_def)
next
  case (snoc tr trs)
  from snoc.prems obtain c1 where
    c1: "apply_options (Timeout b # map Transport trs) c = Inr c1" and
    last: "Transport tr c1 = Inr c'"
    using apply_options_snoc [of "Timeout b # map Transport trs" "Transport tr" c]
    by (auto simp: then_option_def split: sum.splits)
  from snoc.IH [OF c1] have "Client_Timeout (Cl c1) = b" .
  with last show ?case
    by (auto simp: Transport_def split: option.splits)
qed

lemma apply_options_Transport_Timeouts:
  "apply_options (Transport (Some w) # map Timeout ts) c = Inr c' \<Longrightarrow>
   Client_Transport (Cl c') = TransportPtr (Tr w)"
proof (induction ts arbitrary: c c' rule: rev_induct)
  case Nil
  then show ?case by (auto simp: Transport_def)
next
  case (snoc t ts)
  from snoc.prems obtain c1 where
    c1: "apply_options (Transport (Some w) # map Timeout ts) c = Inr c1" and
    last: "Timeout t c1 = Inr c'"
    using apply_options_snoc [of "Transport (Some w) # map Timeout ts" "Timeout t" c]
    by (auto simp: then_option_def split: sum.splits)
  from snoc.IH [OF c1] have "Client_Transport (Cl c1) = TransportPtr (Tr w)" .
  with last show ?case
    by (auto simp: Timeout_def)
qed

text \<open>
  Claim C10. Both constructors start from a fixed default instance (client: Timeout 0
  and the default transport; transport: MaxIdleConns 100 and IdleConnTimeout 90
  seconds) and run the options strictly left to right: constructing with one more
  option at the right end is constructing without it and then running that option
  (a panic of an earlier option is kept). Hence the rightmost of two options that
  set the same field wins: whatever options come first, and whichever options for
  the other field follow, the last \<open>Timeout b\<close> (the last \<open>Transport\<close>) decides the field
  whenever the construction returns; \<open>NewClientWrapper(Timeout(a), Timeout(b))\<close>
  has Timeout \<open>b\<close>, and \<open>NewClientWrapper()\<close> has Timeout 0.
\<close>

theorem options_applied_left_to_right:
  "NewClientWrapper [] = Inr \<lparr>Cl = default_client\<rparr>
   \<and> Client_Timeout default_client = 0
   \<and> Client_Transport default_client = DefaultTransport
   \<and> NewTransportWrapper [] = Inr \<lparr>Tr = Some default_transport\<rparr>
   \<and> MaxIdleConns default_transport = 100
   \<and> IdleConnTimeout default_transport = 90 * Second
   \<and> NewClientWrapper (opts @ [opt]) = then_option (NewClientWrapper opts) opt
   \<and> NewTransportWrapper (topts @ [topt]) = then_option (NewTransportWrapper topts) topt
   \<and> NewClientWrapper [Timeout a, Timeout b] =
         Inr \<lparr>Cl = default_client\<lparr>Client_Timeout := b\<rparr>\<rparr>
   \<and> (\<forall>c. NewClientWrapper (opts @ Timeout b # map Transport trs) = Inr c \<longrightarrow>
          Client_Timeout (Cl c) = b)
   \<and> (\<forall>c. NewClientWrapper (opts @ Transport (Some w) # map Timeout ts) = Inr c \<longrightarrow>
          Client_Transport (Cl c) = TransportPtr (Tr w))
   \<and> (\<forall>t. NewTransportWrapper (topts @ [MaxIdleCons m, MaxIdleCons n]) = Inr t \<longrightarrow>
          map_option MaxIdleConns (Tr t) = Some n)"
proof -
  have snoc_c: "NewClientWrapper (opts @ [opt]) = then_option (NewClientWrapper opts) opt"
    by (simp add: NewClientWrapper_def apply_options_snoc)
  have snoc_t: "NewTransportWrapper (topts @ [topt]) = then_option (NewTransportWrapper topts) topt"
    by (simp add: NewTransportWrapper_def apply_options_snoc)
  have two: "NewClientWrapper [Timeout a, Timeout b] =
      Inr \<lparr>Cl = default_client\<lparr>Client_Timeout := b\<rparr>\<rparr>"
    by (simp add: NewClientWrapper_def Timeout_def)
  have last_timeout: "Client_Timeout (Cl c) = b"
    if "NewClientWrapper (opts @ Timeout b # map Transport trs) = Inr c" for c
    using that apply_options_Timeout_Transports [of b trs _ c]
    by (auto simp: NewClientWrapper_def apply_options_append split: sum.splits)
  have last_transport: "Client_Transport (Cl c) = TransportPtr (Tr w)"
    if "NewClientWrapper (opts @ Transport (Some w) # map Timeout ts) = Inr c" for c
    using that apply_options_Transport_Timeouts [of w ts _ c]
    by (auto simp: NewClientWrapper_def apply_options_append split: sum.splits)
  have last_idle: "map_option MaxIdleConns (Tr t) = Some n"
    if "NewTransportWrapper (topts @ [MaxIdleCons m, MaxIdleCons n]) = Inr t" for t
    using that
    by (auto simp: NewTransportWrapper_def apply_options_append MaxIdleCons_def write_Tr_def
        split: sum.splits option.splits)
  show ?thesis
    using snoc_c snoc_t two last_timeout last_transport last_idle
    by (simp add: NewClientWrapper_def NewTransportWrapper_def default_client_def
        default_transport_def)
qed

theorem options_applied_left_to_right_witness:
  "NewClientWrapper ([Timeout 5] @ Timeout 7 # map Transport [Some \<lparr>Tr = None\<rparr>]) =
     Inr \<lparr>Cl = \<lparr>Client_Transport = TransportPtr None, CheckRedirect = None, Jar = None,
                Client_Timeout = 7\<rparr>\<rparr>
   \<and> Client_Timeout (Cl \<lparr>Cl = \<lparr>Client_Transport = TransportPtr None, CheckRedirect = None,
                              Jar = None, Client_Timeout = 7\<rparr>\<rparr>) = 7
   \<and> NewClientWrapper [Timeout 5, Transport None, Timeout 7] = Inl NilDereference"
  using options_applied_left_to_right [of "[Timeout 5]" _ "[]" _ 5 7 "[Some \<lparr>Tr = None\<rparr>]"]
  by (simp add: NewClientWrapper_def Timeout_def Transport_def default_client_def)

section \<open>Invariants of the limiter\<close>

lemma enqueued_append: "enqueued (xs @ ys) = enqueued xs @ enqueued ys"
  by (induction xs rule: enqueued.induct) auto

lemma dequeued_append: "dequeued (xs @ ys) = dequeued xs @ dequeued ys"
  by (induction xs rule: dequeued.induct) auto

lemma drained_append: "drained (xs @ ys) = drained xs @ drained ys"
  by (induction xs rule: drained.induct) auto

lemma live_append: "live (xs @ ys) = live xs + live ys"
  by (simp add: live_def)

lemma live_update_Returned:
  "w < length ws \<Longrightarrow> ws ! w \<noteq> Returned \<Longrightarrow> live (ws[w := Returned]) + 1 = live ws"
proof (induction ws arbitrary: w)
  case Nil
  then show ?case by simp
next
  case (Cons p ps)
  then show ?case by (cases w) (auto simp: live_def)
qed

lemma live_update_keep:
  "w < length ws \<Longrightarrow> ws ! w \<noteq> Returned \<Longrightarrow> p \<noteq> Returned \<Longrightarrow> live (ws[w := p]) = live ws"
proof (induction ws arbitrary: w)
  case Nil
  then show ?case by simp
next
  case (Cons q qs)
  then show ?case by (cases w) (auto simp: live_def)
qed

lemma live_pos: "w < length ws \<Longrightarrow> ws ! w \<noteq> Returned \<Longrightarrow> 0 < live ws"
  using live_update_Returned [of w ws] by simp


lemma invL_spawn: "invL s \<Longrightarrow> invL (spawn_worker s)"
  by (simp add: invL_def spawn_worker_def live_append) (simp add: live_def)

lemma invL_Done:
  "invL s \<Longrightarrow> w < length (workers s) \<Longrightarrow> workers s ! w \<noteq> Returned \<Longrightarrow>
   invL (limit_Done w s) \<and> halted (limit_Done w s) = halted s"
  using live_update_Returned [of w "workers s"]
  by (simp add: invL_def limit_Done_def)

lemma worker_atD: "worker_at s w = Some p \<Longrightarrow> w < length (workers s) \<and> workers s ! w = p"
  by (auto simp: worker_at_def split: if_splits)

lemma stop_atD: "stop_at s h = Some p \<Longrightarrow> h < length (stops s) \<and> stops s ! h = p"
  by (auto simp: stop_at_def split: if_splits)

lemma limit_Done_frame:
  "queue (limit_Done w s) = queue s" "cap (limit_Done w s) = cap s"
  "qclosed (limit_Done w s) = qclosed s" "prod_i (limit_Done w s) = prod_i s"
  "prod_n (limit_Done w s) = prod_n s" "producer_live (limit_Done w s) = producer_live s"
  "wg (limit_Done w s) = wg s" "mainpc (limit_Done w s) = mainpc s"
  "trace (limit_Done w s) = trace s" "stops (limit_Done w s) = stops s"
  "done_ch (limit_Done w s) = done_ch s" "closed_chans (limit_Done w s) = closed_chans s"
  "next_chan (limit_Done w s) = next_chan s" "wgroups (limit_Done w s) = wgroups s"
  by (simp_all add: limit_Done_def)

text \<open>The queue invariant.\<close>

lemma invQ_Send: "invQ a s \<Longrightarrow> producer_send s = Some s' \<Longrightarrow> invQ a s'"
  by (auto simp: invQ_def producer_send_def chan_send_def enqueued_append dequeued_append
      drained_append upto_rec2 split: if_splits send.splits)

lemma invQ_range: "invQ a s \<Longrightarrow> startWorker_range w s = Some s' \<Longrightarrow> invQ a s'"
  by (auto simp: invQ_def startWorker_range_def chan_recv_def limit_Done_frame enqueued_append
      dequeued_append drained_append split: if_splits list.splits)

lemma invQ_frame:
  "invQ a s \<Longrightarrow> queue s' = queue s \<Longrightarrow> cap s' = cap s \<Longrightarrow> prod_i s' = prod_i s \<Longrightarrow>
   enqueued (trace s') = enqueued (trace s) \<Longrightarrow> dequeued (trace s') = dequeued (trace s) \<Longrightarrow>
   drained (trace s') = drained (trace s) \<Longrightarrow> (qclosed s \<Longrightarrow> qclosed s') \<Longrightarrow> invQ a s'"
  by (auto simp: invQ_def)

lemma invQ_step: "invQ a s \<Longrightarrow> step e s = Some s' \<Longrightarrow> invQ a s'"
proof (cases e)
  case Send
  then show "invQ a s \<Longrightarrow> step e s = Some s' \<Longrightarrow> invQ a s'"
    by (auto simp: step_def invQ_Send split: if_splits)
next
  case (Range w)
  then show "invQ a s \<Longrightarrow> step e s = Some s' \<Longrightarrow> invQ a s'"
    by (auto simp: step_def invQ_range split: if_splits option.splits wpc.splits)
next
  case (Request w r)
  then show "invQ a s \<Longrightarrow> step e s = Some s' \<Longrightarrow> invQ a s'"
    by (cases r)
       (auto simp: step_def startWorker_done_def startWorker_default_def request_def
          limit_Done_frame enqueued_append dequeued_append drained_append
          elim!: invQ_frame split: if_splits option.splits wpc.splits)
qed (auto simp: step_def producer_return_def main_step_def main_return_def wgroup_iter_def
      spawn_worker_def startWorker_select_def stop_send_def stop_close_def start_def
      addWorker_def enqueued_append dequeued_append drained_append Let_def
      elim!: invQ_frame split: if_splits option.splits wpc.splits hpc.splits mpc.splits)

text \<open>The producer and \<open>main\<close>.\<close>

lemma invP_frame:
  "invP s \<Longrightarrow> wg s' = wg s \<Longrightarrow> producer_live s' = producer_live s \<Longrightarrow>
   mainpc s' = mainpc s \<Longrightarrow> qclosed s' = qclosed s \<Longrightarrow> prod_i s' = prod_i s \<Longrightarrow>
   prod_n s' = prod_n s \<Longrightarrow> invP s'"
  by (simp add: invP_def)

lemma invP_step: "invP s \<Longrightarrow> step e s = Some s' \<Longrightarrow> invP s'"
proof (cases e)
  case Send
  then show "invP s \<Longrightarrow> step e s = Some s' \<Longrightarrow> invP s'"
    by (auto simp: step_def invP_def producer_send_def chan_send_def
        split: if_splits send.splits)
next
  case ProducerReturn
  then show "invP s \<Longrightarrow> step e s = Some s' \<Longrightarrow> invP s'"
    by (auto simp: step_def invP_def producer_return_def split: if_splits)
next
  case Main
  then show "invP s \<Longrightarrow> step e s = Some s' \<Longrightarrow> invP s'"
    by (auto simp: step_def invP_def main_step_def spawn_worker_def
        split: if_splits mpc.splits)
next
  case (Range w)
  then show "invP s \<Longrightarrow> step e s = Some s' \<Longrightarrow> invP s'"
    by (auto simp: step_def startWorker_range_def limit_Done_frame
        elim!: invP_frame split: if_splits option.splits wpc.splits recv.splits)
next
  case (Request w r)
  then show "invP s \<Longrightarrow> step e s = Some s' \<Longrightarrow> invP s'"
    by (cases r)
       (auto simp: step_def startWorker_done_def startWorker_default_def request_def
          limit_Done_frame elim!: invP_frame split: if_splits option.splits wpc.splits)
qed (auto simp: step_def main_return_def wgroup_iter_def
      spawn_worker_def startWorker_select_def stop_send_def stop_close_def start_def
      addWorker_def Let_def
      elim!: invP_frame split: if_splits option.splits wpc.splits hpc.splits)

text \<open>The wait group of the workers.\<close>

lemma invL_frame:
  "invL s \<Longrightarrow> limit s' = limit s \<Longrightarrow> workers s' = workers s \<Longrightarrow> invL s'"
  by (simp add: invL_def)

lemma invL_update:
  "invL s \<Longrightarrow> w < length (workers s) \<Longrightarrow> workers s ! w \<noteq> Returned \<Longrightarrow> p \<noteq> Returned \<Longrightarrow>
   limit s' = limit s \<Longrightarrow> workers s' = (workers s)[w := p] \<Longrightarrow> invL s'"
  by (simp add: invL_def live_update_keep)

lemma invL_range:
  "invL s \<Longrightarrow> worker_at s w = Some AtRange \<Longrightarrow> startWorker_range w s = Some s' \<Longrightarrow>
   invL s' \<and> halted s' = halted s"
proof -
  assume i: "invL s" and at: "worker_at s w = Some AtRange"
    and st: "startWorker_range w s = Some s'"
  from at have w: "w < length (workers s)" "workers s ! w \<noteq> Returned"
    by (auto dest: worker_atD)
  show ?thesis
  proof (cases "chan_recv (queue s) (qclosed s)")
    case Blocked
    with st show ?thesis by (simp add: startWorker_range_def)
  next
    case (Value ww)
    with st have "limit s' = limit s" "workers s' = (workers s)[w := AtSelect ww]"
      "halted s' = halted s"
      by (auto simp: startWorker_range_def)
    with i w show ?thesis by (auto intro: invL_update)
  next
    case ClosedEmpty
    with st have s': "s' = limit_Done w (s\<lparr>trace := trace s @ [Drained w]\<rparr>)"
      by (simp add: startWorker_range_def)
    from i have "invL (s\<lparr>trace := trace s @ [Drained w]\<rparr>)"
      by (simp add: invL_def)
    from invL_Done [OF this, of w] w s' show ?thesis by simp
  qed
qed

lemma invL_select:
  "invL s \<Longrightarrow> worker_at s w = Some (AtSelect ww) \<Longrightarrow> invL (startWorker_select w ww s)"
  by (auto simp: startWorker_select_def invL_def live_update_keep dest!: worker_atD
      split: option.splits)

lemma invL_request_done:
  "invL s \<Longrightarrow> worker_at s w = Some (InDone ww) \<Longrightarrow>
   invL (startWorker_done r w ww s) \<and>
   halted (startWorker_done r w ww s) = (case r of GetOk \<Rightarrow> halted s | GetErr \<Rightarrow> Some (Exit 1))"
proof -
  assume i: "invL s" and at: "worker_at s w = Some (InDone ww)"
  from at have w: "w < length (workers s)" "workers s ! w \<noteq> Returned"
    by (auto dest: worker_atD)
  show ?thesis
  proof (cases r)
    case GetErr
    with i show ?thesis
      by (simp add: startWorker_done_def request_def invL_def)
  next
    case GetOk
    from i have "invL (s\<lparr>trace := trace s @ [Executed w ww]\<rparr>)"
      by (simp add: invL_def)
    from invL_Done [OF this, of w] w GetOk i show ?thesis
      by (auto simp: startWorker_done_def request_def Let_def invL_def)
  qed
qed

lemma invL_request_default:
  "invL s \<Longrightarrow> worker_at s w = Some (InDefault ww) \<Longrightarrow>
   invL (startWorker_default r w ww s) \<and>
   halted (startWorker_default r w ww s) = (case r of GetOk \<Rightarrow> halted s | GetErr \<Rightarrow> Some (Exit 1))"
  by (cases r)
     (auto simp: startWorker_default_def request_def Let_def invL_def live_update_keep
        dest!: worker_atD)

lemma invL_step: "invL s \<Longrightarrow> step e s = Some s' \<Longrightarrow> invL s'"
proof (cases e)
  case Main
  then show "invL s \<Longrightarrow> step e s = Some s' \<Longrightarrow> invL s'"
    using invL_spawn [of s]
    by (auto simp: step_def main_step_def invL_def split: if_splits mpc.splits)
next
  case (Wgroup k)
  then show "invL s \<Longrightarrow> step e s = Some s' \<Longrightarrow> invL s'"
    using invL_spawn [of s]
    by (auto simp: step_def wgroup_iter_def invL_def split: if_splits)
next
  case AddWorkerRequest
  then show "invL s \<Longrightarrow> step e s = Some s' \<Longrightarrow> invL s'"
    using invL_spawn [of s]
    by (auto simp: step_def addWorker_def split: if_splits)
next
  case (Range w)
  then show "invL s \<Longrightarrow> step e s = Some s' \<Longrightarrow> invL s'"
    using invL_range [of s w s']
    by (auto simp: step_def split: if_splits option.splits wpc.splits)
next
  case (Select w)
  then show "invL s \<Longrightarrow> step e s = Some s' \<Longrightarrow> invL s'"
    by (auto simp: step_def invL_select split: if_splits option.splits wpc.splits)
next
  case (Request w r)
  then show "invL s \<Longrightarrow> step e s = Some s' \<Longrightarrow> invL s'"
    by (auto simp: step_def invL_request_done invL_request_default
        split: if_splits option.splits wpc.splits)
qed (auto simp: step_def producer_send_def chan_send_def producer_return_def main_return_def
      stop_send_def stop_close_def start_def Let_def
      elim!: invL_frame split: if_splits option.splits hpc.splits send.splits)

text \<open>No goroutine outside the handlers panics.\<close>

lemma no_crash_step:
  "invP s \<Longrightarrow> invL s \<Longrightarrow> no_crash s \<Longrightarrow> step e s = Some s' \<Longrightarrow> no_crash s'"
proof (cases e)
  case Send
  then show "invP s \<Longrightarrow> invL s \<Longrightarrow> no_crash s \<Longrightarrow> step e s = Some s' \<Longrightarrow> no_crash s'"
    by (auto simp: step_def no_crash_def invP_def producer_send_def chan_send_def
        split: if_splits send.splits)
next
  case ProducerReturn
  then show "invP s \<Longrightarrow> invL s \<Longrightarrow> no_crash s \<Longrightarrow> step e s = Some s' \<Longrightarrow> no_crash s'"
    by (auto simp: step_def no_crash_def invP_def producer_return_def split: if_splits)
next
  case Main
  then show "invP s \<Longrightarrow> invL s \<Longrightarrow> no_crash s \<Longrightarrow> step e s = Some s' \<Longrightarrow> no_crash s'"
    by (auto simp: step_def no_crash_def invP_def main_step_def spawn_worker_def
        split: if_splits mpc.splits)
next
  case (Range w)
  then show "invP s \<Longrightarrow> invL s \<Longrightarrow> no_crash s \<Longrightarrow> step e s = Some s' \<Longrightarrow> no_crash s'"
    using invL_range [of s w s']
    by (auto simp: step_def no_crash_def split: if_splits option.splits wpc.splits)
next
  case (Request w r)
  then show "invP s \<Longrightarrow> invL s \<Longrightarrow> no_crash s \<Longrightarrow> step e s = Some s' \<Longrightarrow> no_crash s'"
    using invL_request_done [of s w _ r] invL_request_default [of s w _ r]
    by (cases r) (auto simp: step_def no_crash_def split: if_splits option.splits wpc.splits)
qed (auto simp: step_def no_crash_def main_return_def wgroup_iter_def spawn_worker_def
      startWorker_select_def stop_send_def stop_close_def start_def addWorker_def Let_def
      split: if_splits option.splits wpc.splits hpc.splits)

text \<open>The invariants together, along every run.\<close>

lemma invariant_step: "invariant a s \<Longrightarrow> step e s = Some s' \<Longrightarrow> invariant a s'"
  unfolding invariant_def
  using invQ_step invP_step invL_step no_crash_step by blast

lemma invariant_run: "invariant a s \<Longrightarrow> run es s = Some s' \<Longrightarrow> invariant a s'"
proof (induction es arbitrary: s)
  case Nil
  then show ?case by simp
next
  case (Cons e es)
  then show ?case
    by (auto split: option.splits dest: invariant_step)
qed

lemma invariant_initial: "invariant 0 (initial c n)"
  by (simp add: invariant_def invQ_def invP_def invL_def no_crash_def initial_def live_def)

section \<open>The job queue\<close>

lemmas step_defs = step_def worker_at_def stop_at_def producer_send_def producer_return_def
  main_step_def main_return_def wgroup_iter_def startWorker_range_def startWorker_select_def
  startWorker_done_def startWorker_default_def stop_send_def stop_close_def start_def
  addWorker_def spawn_worker_def limit_Done_def request_def chan_recv_def chan_send_def

lemma step_cap: "step e s = Some s' \<Longrightarrow> cap s' = cap s"
  by (cases e)
     (auto simp: step_defs Let_def
        split: if_splits option.splits wpc.splits hpc.splits mpc.splits send.splits
          list.splits get_result.splits)

lemma step_queue:
  "step e s = Some s' \<Longrightarrow> e \<noteq> Send \<Longrightarrow> (\<And>w. e \<noteq> Range w) \<Longrightarrow> queue s' = queue s"
  by (cases e)
     (auto simp: step_defs Let_def
        split: if_splits option.splits wpc.splits hpc.splits mpc.splits
          get_result.splits)

lemma run_cap: "run es s = Some s' \<Longrightarrow> cap s' = cap s"
  by (induction es arbitrary: s) (auto split: option.splits dest: step_cap)

lemma send_blocked_full:
  "invP s \<Longrightarrow> length (queue s) = cap s \<Longrightarrow> step Send s = None"
  by (auto simp: step_def producer_send_def chan_send_def invP_def split: send.splits)

text \<open>
  Claim C8. The queue is bounded at the capacity \<open>c\<close> it was made with (10 in the
  program): in every state the program reaches, it buffers at most \<open>c\<close> jobs. When it
  holds \<open>c\<close> jobs the producer's next send is blocked: the send is not taken and the
  job is neither accepted nor dropped (the step of the producer does not exist, so
  the state stays as it is). It stays blocked whatever else happens: every step other
  than a worker's receive leaves the buffer as it is, and the send blocked; a worker's
  receive takes the oldest job and makes room.
\<close>

theorem queue_bounded_backpressure:
  assumes "run es (initial c n) = Some s"
  shows "cap s = c \<and> length (queue s) \<le> c
    \<and> (length (queue s) = c \<longrightarrow> step Send s = None)
    \<and> (length (queue s) = c \<and> producer_live s \<and> prod_i s < prod_n s \<longrightarrow>
         chan_send (cap s) (queue s) (qclosed s) (prod_i s) = SendBlocked)
    \<and> (\<forall>e s'. length (queue s) = c \<and> step e s = Some s' \<and> (\<forall>w. e \<noteq> Range w) \<longrightarrow>
          queue s' = queue s \<and> step Send s' = None)
    \<and> (\<forall>w s'. 0 < c \<and> length (queue s) = c \<and> step (Range w) s = Some s' \<longrightarrow>
          queue s' = tl (queue s) \<and> length (queue s') < c)"
proof -
  from assms have i: "invariant 0 s"
    using invariant_run [OF invariant_initial] by blast
  from assms have c: "cap s = c"
    by (auto dest: run_cap simp: initial_def)
  from i c have len: "length (queue s) \<le> c"
    by (simp add: invariant_def invQ_def)
  from i have p: "invP s" by (simp add: invariant_def)
  have full: "step Send s = None" if "length (queue s) = c"
    using that p c by (simp add: send_blocked_full)
  have blocked: "chan_send (cap s) (queue s) (qclosed s) (prod_i s) = SendBlocked"
    if "length (queue s) = c" "producer_live s"
    using that p c by (auto simp: chan_send_def invP_def)
  have other: "queue s' = queue s \<and> step Send s' = None"
    if "length (queue s) = c" "step e s = Some s'" "\<And>w. e \<noteq> Range w" for e s'
  proof -
    from that(2) full [OF that(1)] have ne: "e \<noteq> Send" by auto
    from step_queue [OF that(2) ne that(3)] have q: "queue s' = queue s" .
    from that(2) p have "invP s'"
      by (rule invP_step [rotated])
    moreover from that(2) c have "cap s' = c" by (auto dest: step_cap)
    ultimately have "step Send s' = None"
      using q that(1) by (simp add: send_blocked_full)
    with q show ?thesis by simp
  qed
  have range: "queue s' = tl (queue s) \<and> length (queue s') < c"
    if "0 < c" "length (queue s) = c" "step (Range w) s = Some s'" for w s'
    using that
    by (auto simp: step_def startWorker_range_def chan_recv_def
        split: if_splits option.splits wpc.splits list.splits)
  show ?thesis
    using c len full blocked other range by blast
qed


theorem queue_bounded_backpressure_witness:
  "run [Send, Send, Send, Send, Send, Send, Send, Send, Send, Send] (initial 10 10000) =
     Some ((initial 10 10000)
       \<lparr>queue := [0, 1, 2, 3, 4, 5, 6, 7, 8, 9], prod_i := 10,
        trace := [Enqueued 0, Enqueued 1, Enqueued 2, Enqueued 3, Enqueued 4, Enqueued 5,
                  Enqueued 6, Enqueued 7, Enqueued 8, Enqueued 9]\<rparr>)
   \<and> workers ((initial 10 10000)
       \<lparr>queue := [0, 1, 2, 3, 4, 5, 6, 7, 8, 9], prod_i := 10,
        trace := [Enqueued 0, Enqueued 1, Enqueued 2, Enqueued 3, Enqueued 4, Enqueued 5,
                  Enqueued 6, Enqueued 7, Enqueued 8, Enqueued 9]\<rparr>) = []
   \<and> step Send ((initial 10 10000)
       \<lparr>queue := [0, 1, 2, 3, 4, 5, 6, 7, 8, 9], prod_i := 10,
        trace := [Enqueued 0, Enqueued 1, Enqueued 2, Enqueued 3, Enqueued 4, Enqueued 5,
                  Enqueued 6, Enqueued 7, Enqueued 8, Enqueued 9]\<rparr>) = None"
proof -
  have r: "run [Send, Send, Send, Send, Send, Send, Send, Send, Send, Send] (initial 10 10000) =
     Some ((initial 10 10000)
       \<lparr>queue := [0, 1, 2, 3, 4, 5, 6, 7, 8, 9], prod_i := 10,
        trace := [Enqueued 0, Enqueued 1, Enqueued 2, Enqueued 3, Enqueued 4, Enqueued 5,
                  Enqueued 6, Enqueued 7, Enqueued 8, Enqueued 9]\<rparr>)"
    by (simp add: step_def producer_send_def chan_send_def initial_def)
  from queue_bounded_backpressure [OF r] r show ?thesis
    by (simp add: initial_def)
qed

lemma chan_recv_ClosedEmpty: "(chan_recv buf cl = ClosedEmpty) = (buf = [] \<and> cl)"
  by (simp add: chan_recv_def split: list.splits)

lemma range_drained:
  "step (Range w) s = Some s' \<Longrightarrow> drained (trace s') \<noteq> drained (trace s) \<Longrightarrow>
   qclosed s \<and> queue s = []"
  by (auto simp: step_def startWorker_range_def chan_recv_def limit_Done_frame drained_append
      split: if_splits option.splits wpc.splits list.splits)

text \<open>
  Claim C6. In every state the program reaches, the jobs sent to the queue, in the
  order they were sent, are the jobs received by the workers, in the order they were
  received, followed by the jobs still buffered; no job is sent twice, so every job
  sent is received by exactly one receive or is still in the buffer. A range loop
  ends (the receive reports the closure) only when the queue is closed and empty, and
  once one has ended every job sent has been received. \<^verbatim>\<open>close(work)\<close> leaves the
  buffer as it is.
\<close>

theorem no_lost_jobs:
  assumes "run es (initial c n) = Some s"
  shows "enqueued (trace s) = dequeued (trace s) @ queue s
    \<and> distinct (enqueued (trace s))
    \<and> (drained (trace s) \<noteq> [] \<longrightarrow>
         qclosed s \<and> queue s = [] \<and> dequeued (trace s) = enqueued (trace s))
    \<and> (\<forall>w s'. step (Range w) s = Some s' \<and> drained (trace s') \<noteq> drained (trace s) \<longrightarrow>
          qclosed s \<and> queue s = [])
    \<and> (\<forall>buf cl. (chan_recv buf cl = ClosedEmpty) = (buf = [] \<and> cl))
    \<and> (\<forall>s'. mainpc s = AtCloseWork \<and> step Main s = Some s' \<longrightarrow>
          qclosed s' \<and> queue s' = queue s \<and> trace s' = trace s)"
proof -
  from assms have "invariant 0 s"
    using invariant_run [OF invariant_initial] by blast
  then have q: "invQ 0 s" and p: "invP s"
    by (simp_all add: invariant_def)
  from q have fifo: "enqueued (trace s) = dequeued (trace s) @ queue s"
    unfolding invQ_def by blast
  from q have "enqueued (trace s) = [0..prod_i s - 1]"
    unfolding invQ_def by blast
  then have dist: "distinct (enqueued (trace s))"
    by simp
  from q fifo have dr: "qclosed s \<and> queue s = [] \<and> dequeued (trace s) = enqueued (trace s)"
    if "drained (trace s) \<noteq> []"
    using that by (auto simp: invQ_def)
  have cl: "qclosed s' \<and> queue s' = queue s \<and> trace s' = trace s"
    if "mainpc s = AtCloseWork" "step Main s = Some s'" for s'
    using that p
    by (auto simp: step_def main_step_def invP_def split: if_splits)
  show ?thesis
    using fifo dist dr cl range_drained chan_recv_ClosedEmpty by blast
qed


theorem no_lost_jobs_witness:
  "run [Main, Send, Send, Range 0, Select 0, Request 0 GetOk, Send, ProducerReturn,
        Main, Main, Main, Main, Main, Main, Main,
        Range 0, Select 0, Request 0 GetOk, Range 0, Select 0, Request 0 GetOk, Range 0]
       (initial 2 3) =
     Some \<lparr>cap = 2, queue = [], qclosed = True, prod_i = 3, prod_n = 3,
           producer_live = False, wg = 0, done_ch = 0, next_chan = 1, closed_chans = {},
           stops = [], workers = [Returned, AtRange, AtRange, AtRange, AtRange],
           wgroups = [], mainpc = AtReturn, limit = 4, halted = None,
           trace = [Enqueued 0, Enqueued 1, Dequeued 0 0, Executed 0 0, Enqueued 2,
                    Dequeued 0 1, Executed 0 1, Dequeued 0 2, Executed 0 2, Drained 0]\<rparr>
   \<and> drained [Enqueued 0, Enqueued 1, Dequeued 0 0, Executed 0 0, Enqueued 2,
               Dequeued 0 1, Executed 0 1, Dequeued 0 2, Executed 0 2, Drained 0] = [0]
   \<and> dequeued [Enqueued 0, Enqueued 1, Dequeued 0 0, Executed 0 0, Enqueued 2,
                Dequeued 0 1, Executed 0 1, Dequeued 0 2, Executed 0 2, Drained 0] = [0, 1, 2]
   \<and> enqueued [Enqueued 0, Enqueued 1, Dequeued 0 0, Executed 0 0, Enqueued 2,
                Dequeued 0 1, Executed 0 1, Dequeued 0 2, Executed 0 2, Drained 0] = [0, 1, 2]"
proof -
  have r: "run [Main, Send, Send, Range 0, Select 0, Request 0 GetOk, Send, ProducerReturn,
        Main, Main, Main, Main, Main, Main, Main,
        Range 0, Select 0, Request 0 GetOk, Range 0, Select 0, Request 0 GetOk, Range 0]
       (initial 2 3) =
     Some \<lparr>cap = 2, queue = [], qclosed = True, prod_i = 3, prod_n = 3,
           producer_live = False, wg = 0, done_ch = 0, next_chan = 1, closed_chans = {},
           stops = [], workers = [Returned, AtRange, AtRange, AtRange, AtRange],
           wgroups = [], mainpc = AtReturn, limit = 4, halted = None,
           trace = [Enqueued 0, Enqueued 1, Dequeued 0 0, Executed 0 0, Enqueued 2,
                    Dequeued 0 1, Executed 0 1, Dequeued 0 2, Executed 0 2, Drained 0]\<rparr>"
    by (simp add: step_defs initial_def)
  from no_lost_jobs [OF r] r show ?thesis
    by simp
qed

section \<open>The wait group of the workers\<close>

lemma wgroup_loop_spawns:
  "workers (wgroup_loop i s) = workers s @ replicate (5 - i) AtRange
   \<and> limit (wgroup_loop i s) = limit s + int (5 - i)"
proof (induction i s rule: wgroup_loop.induct)
  case (1 i s)
  show ?case
  proof (cases "i < 5")
    case True
    then have "5 - i = Suc (5 - (i + 1))" by simp
    with True "1.IH" show ?thesis
      by (simp add: spawn_worker_def replicate_app_Cons_same)
  next
    case False
    then show ?thesis by simp
  qed
qed

lemma wgroup_unfold:
  "wgroup s = spawn_worker (spawn_worker (spawn_worker (spawn_worker (spawn_worker s))))"
proof -
  have "wgroup_loop 5 s = s" for s
    by simp
  moreover have "wgroup_loop 4 s = wgroup_loop 5 (spawn_worker s)" for s
    using wgroup_loop.simps [of 4 s] by simp
  moreover have "wgroup_loop 3 s = wgroup_loop 4 (spawn_worker s)" for s
    using wgroup_loop.simps [of 3 s] by simp
  moreover have "wgroup_loop 2 s = wgroup_loop 3 (spawn_worker s)" for s
    using wgroup_loop.simps [of 2 s] by simp
  moreover have "wgroup_loop 1 s = wgroup_loop 2 (spawn_worker s)" for s
    using wgroup_loop.simps [of 1 s] by simp
  moreover have "wgroup_loop 0 s = wgroup_loop 1 (spawn_worker s)" for s
    using wgroup_loop.simps [of 0 s] by simp
  ultimately show ?thesis
    by (simp add: wgroup_def)
qed

lemma main_runs_wgroup:
  "mainpc s = InWgroup 0 \<Longrightarrow> halted s = None \<Longrightarrow>
   run [Main, Main, Main, Main, Main, Main] s = Some ((wgroup s)\<lparr>mainpc := AtWait\<rparr>)"
  by (simp add: wgroup_unfold step_def main_step_def spawn_worker_def)

lemma start_runs_wgroup:
  "k < length (wgroups s) \<Longrightarrow> wgroups s ! k = 0 \<Longrightarrow> halted s = None \<Longrightarrow>
   run [Wgroup k, Wgroup k, Wgroup k, Wgroup k, Wgroup k] s =
     Some ((wgroup s)\<lparr>wgroups := (wgroups s)[k := 5]\<rparr>)
   \<and> step (Wgroup k) ((wgroup s)\<lparr>wgroups := (wgroups s)[k := 5]\<rparr>) = None"
  by (simp add: wgroup_unfold step_def wgroup_iter_def spawn_worker_def eval_nat_numeral)

lemma returned_stays:
  "step e s = Some s' \<Longrightarrow> w < length (workers s) \<Longrightarrow> workers s ! w = Returned \<Longrightarrow>
   workers s' ! w = Returned"
  by (cases e)
     (auto simp: step_defs Let_def nth_append nth_list_update
        split: if_splits option.splits wpc.splits hpc.splits mpc.splits send.splits
          list.splits get_result.splits)

lemma return_decrements:
  "step e s = Some s' \<Longrightarrow> w < length (workers s) \<Longrightarrow> workers s ! w \<noteq> Returned \<Longrightarrow>
   workers s' ! w = Returned \<Longrightarrow> limit s' = limit s - 1"
  by (cases e)
     (auto simp: step_defs Let_def nth_append nth_list_update
        split: if_splits option.splits wpc.splits hpc.splits mpc.splits send.splits
          list.splits get_result.splits)

lemma live_zero: "(live ws = 0) = list_all (\<lambda>p. p = Returned) ws"
  by (induction ws) (auto simp: live_def)

text \<open>
  Claim C9. \<^verbatim>\<open>wgroup\<close> spawns exactly five workers (run on its own, and run step by
  step by \<open>main\<close> or by the goroutine of a \<^verbatim>\<open>/start\<close> request, after which its loop
  has no further step). Every spawn, by \<^verbatim>\<open>wgroup\<close> or by \<^verbatim>\<open>addWorker\<close>, adds one
  worker and adds 1 to \<open>limit\<close> in the same step; a worker that returns takes 1 off,
  and a returned worker stays returned, so it does so once. In every state the
  program reaches, \<open>limit\<close> is the number of workers that have not returned; it is 0
  exactly when every worker has returned, and \<^verbatim>\<open>Done\<close> never panics on a negative
  counter.
\<close>

theorem limit_counts_live_workers:
  assumes "run es (initial c n) = Some s"
  shows "limit s = int (live (workers s))
    \<and> (limit s = 0) = list_all (\<lambda>p. p = Returned) (workers s)
    \<and> halted s \<noteq> Some (Crash NegativeWaitGroupCounter)
    \<and> workers (wgroup s) = workers s @ replicate 5 AtRange
    \<and> limit (wgroup s) = limit s + 5
    \<and> (mainpc s = InWgroup 0 \<and> halted s = None \<longrightarrow>
         run [Main, Main, Main, Main, Main, Main] s = Some ((wgroup s)\<lparr>mainpc := AtWait\<rparr>))
    \<and> (\<forall>k. k < length (wgroups s) \<and> wgroups s ! k = 0 \<and> halted s = None \<longrightarrow>
          run [Wgroup k, Wgroup k, Wgroup k, Wgroup k, Wgroup k] s =
            Some ((wgroup s)\<lparr>wgroups := (wgroups s)[k := 5]\<rparr>)
          \<and> step (Wgroup k) ((wgroup s)\<lparr>wgroups := (wgroups s)[k := 5]\<rparr>) = None)
    \<and> (halted s = None \<longrightarrow> step AddWorkerRequest s = Some (spawn_worker s))
    \<and> workers (spawn_worker s) = workers s @ [AtRange]
    \<and> limit (spawn_worker s) = limit s + 1
    \<and> (\<forall>e s' w. step e s = Some s' \<and> w < length (workers s) \<and> workers s ! w = Returned \<longrightarrow>
          workers s' ! w = Returned)
    \<and> (\<forall>e s' w. step e s = Some s' \<and> w < length (workers s) \<and> workers s ! w \<noteq> Returned
            \<and> workers s' ! w = Returned \<longrightarrow> limit s' = limit s - 1)"
proof -
  from assms have i: "invariant 0 s"
    using invariant_run [OF invariant_initial] by blast
  then have l: "limit s = int (live (workers s))"
    by (simp add: invariant_def invL_def)
  then have z: "(limit s = 0) = list_all (\<lambda>p. p = Returned) (workers s)"
    by (simp add: live_zero)
  from i have nc: "halted s \<noteq> Some (Crash NegativeWaitGroupCounter)"
    by (auto simp: invariant_def no_crash_def)
  have w5: "workers (wgroup s) = workers s @ replicate 5 AtRange"
    and l5: "limit (wgroup s) = limit s + 5"
    using wgroup_loop_spawns [of 0 s] by (simp_all add: wgroup_def)
  have add: "step AddWorkerRequest s = Some (spawn_worker s)" if "halted s = None"
    using that by (simp add: step_def addWorker_def)
  have sp: "workers (spawn_worker s) = workers s @ [AtRange]"
    "limit (spawn_worker s) = limit s + 1"
    by (simp_all add: spawn_worker_def)
  show ?thesis
    using l z nc w5 l5 main_runs_wgroup [of s] start_runs_wgroup [of _ s] add sp
      returned_stays [of _ s] return_decrements [of _ s]
    by blast
qed


theorem limit_counts_live_workers_witness:
  "run [Main, Main, Main, Main, Main, Main, ProducerReturn, Main, Main,
        Range 0, Range 1, Range 2, Range 3, Range 4] (initial 10 0) =
     Some \<lparr>cap = 10, queue = [], qclosed = True, prod_i = 0, prod_n = 0,
           producer_live = False, wg = 0, done_ch = 0, next_chan = 1, closed_chans = {},
           stops = [], workers = [Returned, Returned, Returned, Returned, Returned],
           wgroups = [], mainpc = AtReturn, limit = 0, halted = None,
           trace = [Drained 0, Drained 1, Drained 2, Drained 3, Drained 4]\<rparr>
   \<and> live [Returned, Returned, Returned, Returned, Returned] = 0
   \<and> run [Main, Main, Main, Main, Main, Main] (initial 10 0) =
       Some ((wgroup (initial 10 0))\<lparr>mainpc := AtWait\<rparr>)
   \<and> limit (wgroup (initial 10 0)) = 5
   \<and> workers (wgroup (initial 10 0)) = [AtRange, AtRange, AtRange, AtRange, AtRange]"
proof -
  have r: "run [Main, Main, Main, Main, Main, Main, ProducerReturn, Main, Main,
        Range 0, Range 1, Range 2, Range 3, Range 4] (initial 10 0) =
     Some \<lparr>cap = 10, queue = [], qclosed = True, prod_i = 0, prod_n = 0,
           producer_live = False, wg = 0, done_ch = 0, next_chan = 1, closed_chans = {},
           stops = [], workers = [Returned, Returned, Returned, Returned, Returned],
           wgroups = [], mainpc = AtReturn, limit = 0, halted = None,
           trace = [Drained 0, Drained 1, Drained 2, Drained 3, Drained 4]\<rparr>"
    by (simp add: step_defs initial_def)
  have r0: "run [] (initial 10 0) = Some (initial 10 0)"
    by simp
  from limit_counts_live_workers [OF r] limit_counts_live_workers [OF r0] r show ?thesis
    by (simp add: initial_def eval_nat_numeral)
qed

section \<open>Stopping the pool\<close>

lemma first_sender_Some:
  "first_sender ch ps = Some h \<Longrightarrow> h < length ps \<and> ps ! h = Sending ch"
  by (induction ps arbitrary: h) (auto split: if_splits)

lemma first_sender_None: "(first_sender ch ps = None) = (Sending ch \<notin> set ps)"
  by (induction ps) auto

lemma first_sender_append_other:
  "p \<noteq> Sending ch \<Longrightarrow> first_sender ch (ps @ [p]) = first_sender ch ps"
  by (induction ps) auto

lemma closed_step: "step e s = Some s' \<Longrightarrow> ch \<in> closed_chans s \<Longrightarrow> ch \<in> closed_chans s'"
  by (cases e)
     (auto simp: step_defs Let_def
        split: if_splits option.splits wpc.splits hpc.splits mpc.splits send.splits
          list.splits get_result.splits)

lemma closed_run: "run es s = Some s' \<Longrightarrow> ch \<in> closed_chans s \<Longrightarrow> ch \<in> closed_chans s'"
  by (induction es arbitrary: s) (auto split: option.splits dest: closed_step)

lemma select_open:
  "halted s = None \<Longrightarrow> done_ch s \<notin> closed_chans s \<Longrightarrow> Sending (done_ch s) \<notin> set (stops s) \<Longrightarrow>
   worker_at s w = Some (AtSelect ww) \<Longrightarrow>
   \<exists>s'. step (Select w) s = Some s' \<and> worker_at s' w = Some (InDefault ww)"
  using first_sender_None [of "done_ch s" "stops s"]
  by (auto simp: step_def startWorker_select_def worker_at_def split: if_splits)

lemma select_closed:
  "halted s = None \<Longrightarrow> done_ch s \<in> closed_chans s \<Longrightarrow> worker_at s w = Some (AtSelect ww) \<Longrightarrow>
   \<exists>s'. step (Select w) s = Some s' \<and> worker_at s' w = Some (InDone ww)
        \<and> closed_chans s' = closed_chans s \<and> done_ch s' = done_ch s"
  by (auto simp: step_def startWorker_select_def worker_at_def
      split: if_splits option.splits)

lemma close_open:
  "stop_at s h = Some AtClose \<Longrightarrow> done_ch s \<notin> closed_chans s \<Longrightarrow>
   step (StopClose h) s = Some s1 \<Longrightarrow>
   stop_at s1 h = Some Finished \<and> done_ch s \<in> closed_chans s1"
  by (auto simp: step_def stop_close_def stop_at_def split: if_splits)

text \<open>
  What a worker's \<^verbatim>\<open>select\<close> sees outside the time a stop handler is at work. While
  the channel \<^verbatim>\<open>c.done\<close> points to is not closed and no stop handler is in its send
  on it, the \<^verbatim>\<open>select\<close> takes the default branch. Once a stop handler has run
  \<^verbatim>\<open>close(c.done)\<close> on an open channel and returned, that channel is closed in every
  later state of every run, and every worker that checks it, now or later, takes the
  done branch; checking does not use the closure up.
\<close>

theorem closed_done_seen_by_all:
  "(halted s = None \<and> done_ch s \<notin> closed_chans s \<and> Sending (done_ch s) \<notin> set (stops s)
      \<and> worker_at s w = Some (AtSelect ww) \<longrightarrow>
      (\<exists>s'. step (Select w) s = Some s' \<and> worker_at s' w = Some (InDefault ww)))
   \<and> (stop_at s h = Some AtClose \<and> done_ch s \<notin> closed_chans s
        \<and> step (StopClose h) s = Some s1 \<and> run es s1 = Some s2 \<longrightarrow>
        stop_at s1 h = Some Finished \<and> done_ch s \<in> closed_chans s2
        \<and> (\<forall>v vv. halted s2 = None \<and> done_ch s2 = done_ch s
               \<and> worker_at s2 v = Some (AtSelect vv) \<longrightarrow>
               (\<exists>s3. step (Select v) s2 = Some s3 \<and> worker_at s3 v = Some (InDone vv)
                     \<and> done_ch s \<in> closed_chans s3)))"
proof -
  have after: "stop_at s1 h = Some Finished \<and> done_ch s \<in> closed_chans s2
        \<and> (\<forall>v vv. halted s2 = None \<and> done_ch s2 = done_ch s
               \<and> worker_at s2 v = Some (AtSelect vv) \<longrightarrow>
               (\<exists>s3. step (Select v) s2 = Some s3 \<and> worker_at s3 v = Some (InDone vv)
                     \<and> done_ch s \<in> closed_chans s3))"
    if a: "stop_at s h = Some AtClose" "done_ch s \<notin> closed_chans s"
      "step (StopClose h) s = Some s1" "run es s1 = Some s2"
  proof -
    from close_open [OF a(1) a(2) a(3)]
    have f: "stop_at s1 h = Some Finished" and c1: "done_ch s \<in> closed_chans s1"
      by simp_all
    from closed_run [OF a(4) c1] have c2: "done_ch s \<in> closed_chans s2" .
    have "\<exists>s3. step (Select v) s2 = Some s3 \<and> worker_at s3 v = Some (InDone vv)
                     \<and> done_ch s \<in> closed_chans s3"
      if "halted s2 = None" "done_ch s2 = done_ch s" "worker_at s2 v = Some (AtSelect vv)"
      for v vv
      using select_closed [of s2 v vv] that c2 by auto
    with f c2 show ?thesis by blast
  qed
  show ?thesis
    using select_open [of s w ww] after by blast
qed


text \<open>
  The theorem at a run of the program: worker 0 checks before any stop and takes the
  default branch; after a stop handler has closed the channel, worker 1 (which did
  not receive the handler's message) checks and takes the done branch.
\<close>

theorem closed_done_seen_by_all_witness:
  "run [Main, Send, Range 0] init =
     Some (init\<lparr>prod_i := 1, workers := [AtSelect 0], mainpc := InWgroup 1, limit := 1,
                trace := [Enqueued 0, Dequeued 0 0]\<rparr>)
   \<and> step (Select 0)
        (init\<lparr>prod_i := 1, workers := [AtSelect 0], mainpc := InWgroup 1, limit := 1,
              trace := [Enqueued 0, Dequeued 0 0]\<rparr>) =
       Some (init\<lparr>prod_i := 1, workers := [InDefault 0], mainpc := InWgroup 1, limit := 1,
                  trace := [Enqueued 0, Dequeued 0 0]\<rparr>)
   \<and> run [Main, Main, Send, Send, StopRequest, Range 0, Select 0] init =
       Some (init\<lparr>queue := [1], prod_i := 2, stops := [AtClose],
                  workers := [InDone 0, AtRange], mainpc := InWgroup 2, limit := 2,
                  trace := [Enqueued 0, Enqueued 1, StopCalled 0, Dequeued 0 0]\<rparr>)
   \<and> run [StopClose 0, Range 1]
        (init\<lparr>queue := [1], prod_i := 2, stops := [AtClose],
              workers := [InDone 0, AtRange], mainpc := InWgroup 2, limit := 2,
              trace := [Enqueued 0, Enqueued 1, StopCalled 0, Dequeued 0 0]\<rparr>) =
       Some (init\<lparr>prod_i := 2, closed_chans := {0}, stops := [Finished],
                  workers := [InDone 0, AtSelect 1], mainpc := InWgroup 2, limit := 2,
                  trace := [Enqueued 0, Enqueued 1, StopCalled 0, Dequeued 0 0,
                            Dequeued 1 1]\<rparr>)
   \<and> step (Select 1)
        (init\<lparr>prod_i := 2, closed_chans := {0}, stops := [Finished],
              workers := [InDone 0, AtSelect 1], mainpc := InWgroup 2, limit := 2,
              trace := [Enqueued 0, Enqueued 1, StopCalled 0, Dequeued 0 0,
                        Dequeued 1 1]\<rparr>) =
       Some (init\<lparr>prod_i := 2, closed_chans := {0}, stops := [Finished],
                  workers := [InDone 0, InDone 1], mainpc := InWgroup 2, limit := 2,
                  trace := [Enqueued 0, Enqueued 1, StopCalled 0, Dequeued 0 0,
                            Dequeued 1 1]\<rparr>)"
  using closed_done_seen_by_all
    [of "init\<lparr>prod_i := 1, workers := [AtSelect 0], mainpc := InWgroup 1, limit := 1,
              trace := [Enqueued 0, Dequeued 0 0]\<rparr>" 0 0]
    closed_done_seen_by_all
    [of "init\<lparr>queue := [1], prod_i := 2, stops := [AtClose],
              workers := [InDone 0, AtRange], mainpc := InWgroup 2, limit := 2,
              trace := [Enqueued 0, Enqueued 1, StopCalled 0, Dequeued 0 0]\<rparr>" _ _ 0
        "init\<lparr>queue := [1], prod_i := 2, closed_chans := {0}, stops := [Finished],
              workers := [InDone 0, AtRange], mainpc := InWgroup 2, limit := 2,
              trace := [Enqueued 0, Enqueued 1, StopCalled 0, Dequeued 0 0]\<rparr>"
        "[Range 1]"
        "init\<lparr>prod_i := 2, closed_chans := {0}, stops := [Finished],
              workers := [InDone 0, AtSelect 1], mainpc := InWgroup 2, limit := 2,
              trace := [Enqueued 0, Enqueued 1, StopCalled 0, Dequeued 0 0,
                        Dequeued 1 1]\<rparr>"]
  by (simp add: step_defs init_def initial_def)

text \<open>
  Claim C2 fails on the code. \<^verbatim>\<open>stop\<close> first sends one message on the done channel
  and only then closes it. In this run worker 0 has received the message of the stop
  handler and is in the done branch: it has seen the signal. The handler has not yet
  run \<^verbatim>\<open>close(c.done)\<close>. Worker 1 now checks the same channel, which is open and has
  no sender left, and takes the default branch: it sees the signal not fired, after
  worker 0 has seen it fired. At this moment the stop is a hand-off to one worker.
\<close>

theorem handoff_seen_by_one_worker:
  "run [Main, Main, Send, Send, StopRequest, Range 0, Select 0, Range 1] init =
     Some (init\<lparr>prod_i := 2, stops := [AtClose], workers := [InDone 0, AtSelect 1],
              mainpc := InWgroup 2, limit := 2,
              trace := [Enqueued 0, Enqueued 1, StopCalled 0, Dequeued 0 0, Dequeued 1 1]\<rparr>)
   \<and> worker_at (init\<lparr>prod_i := 2, stops := [AtClose], workers := [InDone 0, AtSelect 1],
              mainpc := InWgroup 2, limit := 2,
              trace := [Enqueued 0, Enqueued 1, StopCalled 0, Dequeued 0 0, Dequeued 1 1]\<rparr>) 0 = Some (InDone 0)
   \<and> worker_at (init\<lparr>prod_i := 2, stops := [AtClose], workers := [InDone 0, AtSelect 1],
              mainpc := InWgroup 2, limit := 2,
              trace := [Enqueued 0, Enqueued 1, StopCalled 0, Dequeued 0 0, Dequeued 1 1]\<rparr>) 1 = Some (AtSelect 1)
   \<and> done_ch (init\<lparr>prod_i := 2, stops := [AtClose], workers := [InDone 0, AtSelect 1],
              mainpc := InWgroup 2, limit := 2,
              trace := [Enqueued 0, Enqueued 1, StopCalled 0, Dequeued 0 0, Dequeued 1 1]\<rparr>) = 0
   \<and> closed_chans (init\<lparr>prod_i := 2, stops := [AtClose], workers := [InDone 0, AtSelect 1],
              mainpc := InWgroup 2, limit := 2,
              trace := [Enqueued 0, Enqueued 1, StopCalled 0, Dequeued 0 0, Dequeued 1 1]\<rparr>) = {}
   \<and> step (Select 1) (init\<lparr>prod_i := 2, stops := [AtClose], workers := [InDone 0, AtSelect 1],
              mainpc := InWgroup 2, limit := 2,
              trace := [Enqueued 0, Enqueued 1, StopCalled 0, Dequeued 0 0, Dequeued 1 1]\<rparr>) =
       Some (init\<lparr>prod_i := 2, stops := [AtClose], workers := [InDone 0, InDefault 1],
                  mainpc := InWgroup 2, limit := 2,
                  trace := [Enqueued 0, Enqueued 1, StopCalled 0, Dequeued 0 0,
                            Dequeued 1 1]\<rparr>)"
  by (simp add: step_defs init_def initial_def)

section \<open>A failing downstream call\<close>

text \<open>
  Claim C3, as the code has it. When the downstream call of a job returns an error,
  in either branch of the \<^verbatim>\<open>select\<close>, \<^verbatim>\<open>request\<close> prints it and calls
  \<^verbatim>\<open>os.Exit(1)\<close>: the process ends with status 1, the worker does not go on to a next
  job, and no goroutine takes another step. When the call succeeds in the default
  branch, the job is done and the worker goes on to its next receive.
\<close>

theorem downstream_failure_exits:
  "(halted s = None \<and> (worker_at s w = Some (InDefault ww) \<or> worker_at s w = Some (InDone ww)) \<longrightarrow>
      step (Request w GetErr) s =
        Some (s\<lparr>halted := Some (Exit 1), trace := trace s @ [Failed w ww]\<rparr>)
      \<and> (\<forall>e. step e (s\<lparr>halted := Some (Exit 1), trace := trace s @ [Failed w ww]\<rparr>) = None))
   \<and> (halted s = None \<and> worker_at s w = Some (InDefault ww) \<longrightarrow>
        step (Request w GetOk) s =
          Some (s\<lparr>workers := (workers s)[w := AtRange], trace := trace s @ [Executed w ww]\<rparr>))"
  by (auto simp: step_def startWorker_done_def startWorker_default_def request_def
      worker_at_def)

text \<open>
  The theorem of claim C3 at worker 0 holding job 0 in the default branch, with job 1
  still queued.
\<close>

theorem downstream_failure_exits_witness:
  "step (Request 0 GetErr)
     (init\<lparr>queue := [1], prod_i := 2, workers := [InDefault 0], mainpc := InWgroup 1,
           limit := 1, trace := [Enqueued 0, Enqueued 1, Dequeued 0 0]\<rparr>) =
     Some (init\<lparr>queue := [1], prod_i := 2, workers := [InDefault 0], mainpc := InWgroup 1,
                limit := 1, halted := Some (Exit 1),
                trace := [Enqueued 0, Enqueued 1, Dequeued 0 0, Failed 0 0]\<rparr>)
   \<and> step (Range 0)
        (init\<lparr>queue := [1], prod_i := 2, workers := [InDefault 0], mainpc := InWgroup 1,
              limit := 1, halted := Some (Exit 1),
              trace := [Enqueued 0, Enqueued 1, Dequeued 0 0, Failed 0 0]\<rparr>) = None
   \<and> step (Request 0 GetOk)
        (init\<lparr>queue := [1], prod_i := 2, workers := [InDefault 0], mainpc := InWgroup 1,
              limit := 1, trace := [Enqueued 0, Enqueued 1, Dequeued 0 0]\<rparr>) =
       Some (init\<lparr>queue := [1], prod_i := 2, workers := [AtRange], mainpc := InWgroup 1,
                  limit := 1, trace := [Enqueued 0, Enqueued 1, Dequeued 0 0, Executed 0 0]\<rparr>)"
  using downstream_failure_exits
    [of "init\<lparr>queue := [1], prod_i := 2, workers := [InDefault 0], mainpc := InWgroup 1,
              limit := 1, trace := [Enqueued 0, Enqueued 1, Dequeued 0 0]\<rparr>" 0 0]
  by (simp add: worker_at_def init_def initial_def)

text \<open>
  Claim C3 as stated fails: in this run the call for job 0 returns an error, the
  process has exited with status 1, and worker 0 cannot take job 1, which is still in
  the queue.
\<close>

theorem downstream_failure_counterexample:
  "run [Main, Send, Send, Range 0, Select 0, Request 0 GetErr] init =
     Some (init\<lparr>queue := [1], prod_i := 2, workers := [InDefault 0], mainpc := InWgroup 1,
                limit := 1, halted := Some (Exit 1),
                trace := [Enqueued 0, Enqueued 1, Dequeued 0 0, Failed 0 0]\<rparr>)
   \<and> step (Range 0)
        (init\<lparr>queue := [1], prod_i := 2, workers := [InDefault 0], mainpc := InWgroup 1,
              limit := 1, halted := Some (Exit 1),
              trace := [Enqueued 0, Enqueued 1, Dequeued 0 0, Failed 0 0]\<rparr>) = None"
  by (simp add: step_defs init_def initial_def)


section \<open>Stop on a stopped pool, and what Stop waits for\<close>

lemma panicked_step:
  "step e s = Some s' \<Longrightarrow> stop_at s h = Some (Panicked p) \<Longrightarrow> stop_at s' h = Some (Panicked p)"
proof (cases e)
  case (Select w)
  assume st: "step e s = Some s'" and at: "stop_at s h = Some (Panicked p)"
  show ?thesis
  proof (cases "first_sender (done_ch s) (stops s)")
    case None
    with st at Select show ?thesis
      by (auto simp: step_def startWorker_select_def stop_at_def
          split: if_splits option.splits wpc.splits)
  next
    case (Some h')
    from first_sender_Some [OF Some] at have "h' \<noteq> h"
      by (auto simp: stop_at_def split: if_splits)
    with st at Select Some show ?thesis
      by (auto simp: step_def startWorker_select_def stop_at_def
          split: if_splits option.splits wpc.splits)
  qed
next
  case (StopClose h')
  assume st: "step e s = Some s'" and at: "stop_at s h = Some (Panicked p)"
  from st StopClose have "stop_at s h' = Some AtClose"
    by (auto simp: step_def split: if_splits option.splits hpc.splits)
  with at have "h' \<noteq> h" by auto
  with st at StopClose show ?thesis
    by (auto simp: step_def stop_close_def stop_at_def
        split: if_splits option.splits hpc.splits)
qed (auto simp: step_defs Let_def nth_append
      split: if_splits option.splits wpc.splits mpc.splits send.splits
        list.splits get_result.splits)

lemma panicked_run:
  "run es s = Some s' \<Longrightarrow> stop_at s h = Some (Panicked p) \<Longrightarrow> stop_at s' h = Some (Panicked p)"
  by (induction es arbitrary: s) (auto split: option.splits dest: panicked_step)

text \<open>
  Claim C4, as the code has it. A \<^verbatim>\<open>/stop\<close> request that arrives when the channel
  \<^verbatim>\<open>c.done\<close> points to is already closed does not fire the signal again: its
  handler panics in \<^verbatim>\<open>c.done <- struct{}{}\<close> (send on closed channel) before it
  reaches \<^verbatim>\<open>close\<close>, offers no message to any worker, and leaves the channels, the
  queue, the workers and the wait group as they were. The handler returns nothing:
  it stays panicked in every later state.
\<close>

theorem stop_on_closed_panics:
  "halted s = None \<and> done_ch s \<in> closed_chans s \<and>
   s' = s\<lparr>stops := stops s @ [Panicked SendOnClosedChannel],
          trace := trace s @ [StopCalled (length (stops s))]\<rparr> \<longrightarrow>
     step StopRequest s = Some s'
     \<and> closed_chans s' = closed_chans s \<and> workers s' = workers s \<and> queue s' = queue s
     \<and> limit s' = limit s \<and> done_ch s' = done_ch s
     \<and> (\<forall>ch. first_sender ch (stops s') = first_sender ch (stops s))
     \<and> (\<forall>es s2. run es s' = Some s2 \<longrightarrow>
           stop_at s2 (length (stops s)) = Some (Panicked SendOnClosedChannel))"
proof -
  have "stop_at (s\<lparr>stops := stops s @ [Panicked SendOnClosedChannel],
          trace := trace s @ [StopCalled (length (stops s))]\<rparr>) (length (stops s)) =
        Some (Panicked SendOnClosedChannel)"
    by (simp add: stop_at_def)
  from panicked_run [OF _ this] show ?thesis
    by (auto simp: step_def stop_send_def Let_def first_sender_append_other)
qed

text \<open>
  The theorem of claim C4 at the state after a first stop has closed the channel.
\<close>

theorem stop_on_closed_panics_witness:
  "step StopRequest
     (init\<lparr>prod_i := 1, closed_chans := {0}, stops := [Finished], workers := [InDone 0],
           mainpc := InWgroup 1, limit := 1,
           trace := [Enqueued 0, StopCalled 0, Dequeued 0 0]\<rparr>) =
     Some (init\<lparr>prod_i := 1, closed_chans := {0},
                stops := [Finished, Panicked SendOnClosedChannel], workers := [InDone 0],
                mainpc := InWgroup 1, limit := 1,
                trace := [Enqueued 0, StopCalled 0, Dequeued 0 0, StopCalled 1]\<rparr>)
   \<and> run [Request 0 GetOk, Main]
        (init\<lparr>prod_i := 1, closed_chans := {0},
              stops := [Finished, Panicked SendOnClosedChannel], workers := [InDone 0],
              mainpc := InWgroup 1, limit := 1,
              trace := [Enqueued 0, StopCalled 0, Dequeued 0 0, StopCalled 1]\<rparr>) =
       Some (init\<lparr>prod_i := 1, closed_chans := {0},
                  stops := [Finished, Panicked SendOnClosedChannel],
                  workers := [Returned, AtRange], mainpc := InWgroup 2, limit := 1,
                  trace := [Enqueued 0, StopCalled 0, Dequeued 0 0, StopCalled 1,
                            Executed 0 0]\<rparr>)
   \<and> stop_at
        (init\<lparr>prod_i := 1, closed_chans := {0},
              stops := [Finished, Panicked SendOnClosedChannel],
              workers := [Returned, AtRange], mainpc := InWgroup 2, limit := 1,
              trace := [Enqueued 0, StopCalled 0, Dequeued 0 0, StopCalled 1,
                        Executed 0 0]\<rparr>) 1 = Some (Panicked SendOnClosedChannel)"
  using stop_on_closed_panics
    [of "init\<lparr>prod_i := 1, closed_chans := {0}, stops := [Finished], workers := [InDone 0],
              mainpc := InWgroup 1, limit := 1,
              trace := [Enqueued 0, StopCalled 0, Dequeued 0 0]\<rparr>"
        "init\<lparr>prod_i := 1, closed_chans := {0},
              stops := [Finished, Panicked SendOnClosedChannel], workers := [InDone 0],
              mainpc := InWgroup 1, limit := 1,
              trace := [Enqueued 0, StopCalled 0, Dequeued 0 0, StopCalled 1]\<rparr>"]
  by (simp add: step_defs init_def initial_def)

text \<open>
  Claim C4 as stated fails: the second \<^verbatim>\<open>/stop\<close> of this run is neither a no-op nor
  an error returned to the caller; its handler (number 1) has panicked.
\<close>

theorem second_stop_counterexample:
  "run [Main, Send, StopRequest, Range 0, Select 0, StopClose 0, StopRequest] init =
     Some (init\<lparr>prod_i := 1, closed_chans := {0},
                stops := [Finished, Panicked SendOnClosedChannel], workers := [InDone 0],
                mainpc := InWgroup 1, limit := 1,
                trace := [Enqueued 0, StopCalled 0, Dequeued 0 0, StopCalled 1]\<rparr>)"
  by (simp add: step_defs init_def initial_def)








section \<open>Jobs taken after Stop\<close>

text \<open>
  Claim C1 fails on the code. In this run two workers wait for jobs when \<^verbatim>\<open>/stop\<close>
  is called. Worker 0 receives the handler's message. Worker 1 reaches its
  \<^verbatim>\<open>select\<close> before the handler has closed the channel, sees neither a sender nor a
  closed channel, and takes the default branch; after job 1 it takes job 2, finds the
  channel closed, executes job 2 and returns. Worker 1 has taken and executed two
  jobs after the call of Stop.
\<close>

theorem stop_window_two_jobs:
  "run [Main, Main, Send, Send, Send, Send, StopRequest, Range 0, Select 0, Range 1, Select 1,
        StopClose 0, Request 1 GetOk, Range 1, Select 1, Request 1 GetOk] init =
     Some (init\<lparr>queue := [3], prod_i := 4, closed_chans := {0}, stops := [Finished],
                workers := [InDone 0, Returned], mainpc := InWgroup 2, limit := 1,
                trace := [Enqueued 0, Enqueued 1, Enqueued 2, Enqueued 3, StopCalled 0,
                          Dequeued 0 0, Dequeued 1 1, Executed 1 1, Dequeued 1 2,
                          Executed 1 2]\<rparr>)
   \<and> dequeued_by 1 (after_stop
        [Enqueued 0, Enqueued 1, Enqueued 2, Enqueued 3, StopCalled 0,
         Dequeued 0 0, Dequeued 1 1, Executed 1 1, Dequeued 1 2, Executed 1 2]) = [1, 2]
   \<and> executed_by 1 (after_stop
        [Enqueued 0, Enqueued 1, Enqueued 2, Enqueued 3, StopCalled 0,
         Dequeued 0 0, Dequeued 1 1, Executed 1 1, Dequeued 1 2, Executed 1 2]) = [1, 2]"
  by (simp add: step_defs init_def initial_def)

section \<open>The scenario\<close>

lemma executed_by_append: "executed_by w (xs @ ys) = executed_by w xs @ executed_by w ys"
  by (induction w xs rule: executed_by.induct) auto

lemma scenario_initial: "invariant 1 scenario \<and> scenario_inv scenario \<and> steps_left scenario = 16"
  by (simp add: invariant_def invQ_def invP_def invL_def no_crash_def scenario_inv_def
      scenario_def steps_left_def live_def)

lemma invP_live_open: "invP s \<Longrightarrow> producer_live s \<Longrightarrow> \<not> qclosed s"
  by (auto simp: invP_def)

lemma scenario_Send:
  assumes i: "invariant 1 s" and si: "scenario_inv s" and st: "step Send s = Some s'"
  shows "scenario_inv s' \<and> steps_left s' + 1 = steps_left s"
proof -
  from i have p: "invP s" by (simp add: invariant_def)
  from st have live: "producer_live s" and lt: "prod_i s < prod_n s"
    by (auto simp: step_def producer_send_def split: if_splits)
  from invP_live_open [OF p live] st live lt
  have s': "s' = s\<lparr>queue := queue s @ [prod_i s], prod_i := prod_i s + 1,
                    trace := trace s @ [Enqueued (prod_i s)]\<rparr>"
    by (auto simp: step_def producer_send_def chan_send_def split: if_splits)
  from lt have n: "nat (prod_n s - prod_i s) = Suc (nat (prod_n s - (prod_i s + 1)))"
    by simp
  from si lt have inv': "scenario_inv s'"
    unfolding s' scenario_inv_def
    by (simp add: executed_by_append dequeued_append drained_append)
  have "steps_left s' + 1 = steps_left s"
    unfolding s' steps_left_def using n by simp
  with inv' show ?thesis by simp
qed

lemma scenario_ProducerReturn:
  assumes i: "invariant 1 s" and si: "scenario_inv s" and st: "step ProducerReturn s = Some s'"
  shows "scenario_inv s' \<and> steps_left s' + 1 = steps_left s"
proof -
  from st have live: "producer_live s"
    by (auto simp: step_def producer_return_def split: if_splits)
  with i have "wg s = 1" by (simp add: invariant_def invP_def)
  with st live have s': "s' = s\<lparr>wg := 0, producer_live := False\<rparr>"
    by (auto simp: step_def producer_return_def split: if_splits)
  from si have "scenario_inv s'"
    unfolding s' scenario_inv_def by simp
  moreover from live have "steps_left s' + 1 = steps_left s"
    unfolding s' steps_left_def by simp
  ultimately show ?thesis by simp
qed

lemma scenario_Main:
  assumes i: "invariant 1 s" and si: "scenario_inv s" and st: "step Main s = Some s'"
  shows "scenario_inv s' \<and> steps_left s' + 1 = steps_left s"
proof -
  from i have q: "qclosed s = (mainpc s = AtReturn)"
    by (simp add: invariant_def invP_def)
  from si have "mainpc s = AtWait \<or> mainpc s = AtCloseWork \<or> mainpc s = AtReturn"
    by (simp add: scenario_inv_def)
  then show ?thesis
  proof (elim disjE)
    assume m: "mainpc s = AtWait"
    with st have s': "s' = s\<lparr>mainpc := AtCloseWork\<rparr>"
      by (auto simp: step_def main_step_def split: if_splits)
    from si m show ?thesis
      unfolding s' scenario_inv_def steps_left_def by simp
  next
    assume m: "mainpc s = AtCloseWork"
    with st q have s': "s' = s\<lparr>qclosed := True, mainpc := AtReturn\<rparr>"
      by (auto simp: step_def main_step_def split: if_splits)
    from si m show ?thesis
      unfolding s' scenario_inv_def steps_left_def by simp
  next
    assume m: "mainpc s = AtReturn"
    with st show ?thesis
      by (auto simp: step_def main_step_def split: if_splits)
  qed
qed

lemma scenario_worker:
  "scenario_inv s \<Longrightarrow> worker_at s w = Some p \<Longrightarrow> w = 0 \<and> workers s = [p]"
  by (cases "workers s")
     (auto simp: scenario_inv_def worker_at_def split: if_splits)

lemma scenario_Range:
  assumes i: "invariant 1 s" and si: "scenario_inv s" and st: "step (Range w) s = Some s'"
  shows "scenario_inv s' \<and> steps_left s' + 1 = steps_left s"
proof -
  from st have at: "worker_at s w = Some AtRange" and h: "halted s = None"
    by (auto simp: step_def split: if_splits option.splits wpc.splits)
  from scenario_worker [OF si at] have w0: "w = 0" and ws: "workers s = [AtRange]"
    by simp_all
  from i ws have l: "limit s = 1"
    by (simp add: invariant_def invL_def live_def)
  from st at h have r: "startWorker_range 0 s = Some s'"
    by (simp add: step_def w0)
  show ?thesis
  proof (cases "queue s")
    case Nil
    with r have c: "qclosed s"
      and s': "s' = limit_Done 0 (s\<lparr>trace := trace s @ [Drained 0]\<rparr>)"
      by (auto simp: startWorker_range_def chan_recv_def split: if_splits)
    from l ws have s'': "s' = s\<lparr>workers := [Returned], limit := 0,
        trace := trace s @ [Drained 0]\<rparr>"
      unfolding s' limit_Done_def by simp
    from si ws Nil show ?thesis
      unfolding s'' scenario_inv_def steps_left_def
      by (simp add: executed_by_append dequeued_append drained_append)
  next
    case (Cons j js)
    with r ws have s': "s' = s\<lparr>queue := js, workers := [AtSelect j],
        trace := trace s @ [Dequeued 0 j]\<rparr>"
      by (simp add: startWorker_range_def chan_recv_def)
    from si ws Cons show ?thesis
      unfolding s' scenario_inv_def steps_left_def
      by (simp add: executed_by_append dequeued_append drained_append)
  qed
qed

lemma scenario_Select:
  assumes si: "scenario_inv s" and st: "step (Select w) s = Some s'"
  shows "scenario_inv s' \<and> steps_left s' + 1 = steps_left s"
proof -
  from st obtain ww where at: "worker_at s w = Some (AtSelect ww)" and h: "halted s = None"
    by (auto simp: step_def split: if_splits option.splits wpc.splits)
  from scenario_worker [OF si at] have w0: "w = 0" and ws: "workers s = [AtSelect ww]"
    by simp_all
  from si have "stops s = []" "closed_chans s = {}"
    by (simp_all add: scenario_inv_def)
  with st at h ws have s': "s' = s\<lparr>workers := [InDefault ww]\<rparr>"
    by (simp add: step_def startWorker_select_def w0)
  from si ws show ?thesis
    unfolding s' scenario_inv_def steps_left_def by simp
qed

lemma scenario_Request:
  assumes si: "scenario_inv s" and st: "step (Request w GetOk) s = Some s'"
  shows "scenario_inv s' \<and> steps_left s' + 1 = steps_left s"
proof -
  from st have h: "halted s = None"
    by (auto simp: step_def split: if_splits)
  from st obtain p where at: "worker_at s w = Some p"
    by (auto simp: step_def split: if_splits option.splits)
  from scenario_worker [OF si at] have w0: "w = 0" and ws: "workers s = [p]"
    by simp_all
  from si ws st at h obtain ww where p: "p = InDefault ww"
    by (cases p) (auto simp: step_def scenario_inv_def)
  from st at h ws have s': "s' = s\<lparr>workers := [AtRange], trace := trace s @ [Executed 0 ww]\<rparr>"
    by (auto simp: step_def startWorker_default_def request_def w0 p)
  from si ws p show ?thesis
    unfolding s' scenario_inv_def steps_left_def
    by (simp add: executed_by_append dequeued_append drained_append)
qed

lemma scenario_inv_step:
  assumes i: "invariant 1 s" and si: "scenario_inv s" and ev: "scenario_event e"
    and st: "step e s = Some s'"
  shows "scenario_inv s' \<and> steps_left s' + 1 = steps_left s"
proof (cases e)
  case Send
  with st scenario_Send [OF i si, of s'] show ?thesis by simp
next
  case ProducerReturn
  with st scenario_ProducerReturn [OF i si, of s'] show ?thesis by simp
next
  case Main
  with st scenario_Main [OF i si, of s'] show ?thesis by simp
next
  case (Range w)
  with st scenario_Range [OF i si, of w s'] show ?thesis by simp
next
  case (Select w)
  with st scenario_Select [OF si, of w s'] show ?thesis by simp
next
  case (Request w r)
  with ev have "r = GetOk" by (cases r) auto
  with Request st scenario_Request [OF si, of w s'] show ?thesis by simp
qed (use ev in auto)

lemma scenario_run:
  "invariant 1 s \<Longrightarrow> scenario_inv s \<Longrightarrow> list_all scenario_event es \<Longrightarrow> run es s = Some s' \<Longrightarrow>
   invariant 1 s' \<and> scenario_inv s' \<and> steps_left s' + length es = steps_left s"
proof (induction es arbitrary: s)
  case Nil
  then show ?case by simp
next
  case (Cons e es)
  from Cons.prems obtain s1 where s1: "step e s = Some s1" and r: "run es s1 = Some s'"
    by (auto split: option.splits)
  from Cons.prems have ev: "scenario_event e" and evs: "list_all scenario_event es"
    by simp_all
  from scenario_inv_step [OF Cons.prems(1) Cons.prems(2) ev s1]
  have si1: "scenario_inv s1" and m: "steps_left s1 + 1 = steps_left s"
    by simp_all
  from invariant_step [OF Cons.prems(1) s1] have i1: "invariant 1 s1" .
  from Cons.IH [OF i1 si1 evs r] m show ?case by simp
qed

lemma scenario_quiescent:
  assumes i: "invariant 1 s" and si: "scenario_inv s" and q: "quiescent s"
  shows "executed_by 0 (trace s) = [1, 2, 3] \<and> dequeued (trace s) = [1, 2, 3]
    \<and> workers s = [Returned] \<and> queue s = [] \<and> qclosed s \<and> limit s = 0
    \<and> halted s = None \<and> steps_left s = 0"
proof -
  from si have h: "halted s = None" and c: "cap s = 2" and n: "prod_n s = 4"
    and le: "prod_i s \<le> 4" and st: "stops s = []" and cl: "closed_chans s = {}"
    and len: "length (workers s) = 1"
    and ex: "executed_by 0 (trace s) @ inflight (workers s ! 0) = dequeued (trace s)"
    and nd: "\<not> in_done (workers s ! 0)"
    and ret: "workers s ! 0 \<noteq> Returned \<or> drained (trace s) \<noteq> []"
    and m: "mainpc s = AtWait \<or> mainpc s = AtCloseWork \<or> mainpc s = AtReturn"
    by (simp_all add: scenario_inv_def)
  from i have iq: "invQ 1 s" and ip: "invP s" and il: "invL s"
    by (simp_all add: invariant_def)
  from len obtain p where ws: "workers s = [p]"
    by (cases "workers s") auto
  from q have qs: "step Send s = None" and qp: "step ProducerReturn s = None"
    and qm: "step Main s = None" and qr: "step (Range 0) s = None"
    and qsel: "step (Select 0) s = None" and qreq: "step (Request 0 GetOk) s = None"
    by (simp_all add: quiescent_def)
  have p: "p = Returned"
  proof (cases p)
    case AtRange
    with qr h ws have e: "queue s = []" and o: "\<not> qclosed s"
      by (auto simp: step_def worker_at_def startWorker_range_def chan_recv_def
          split: list.splits if_splits)
    from o ip have nr: "mainpc s \<noteq> AtReturn" by (simp add: invP_def)
    from qm h m nr have w: "mainpc s = AtWait" "wg s \<noteq> 0"
      by (auto simp: step_def main_step_def split: if_splits)
    with ip have live: "producer_live s" by (auto simp: invP_def split: if_splits)
    with qp h have "prod_i s < prod_n s"
      by (auto simp: step_def producer_return_def split: if_splits)
    with qs h live e o c show ?thesis
      by (auto simp: step_def producer_send_def chan_send_def split: if_splits)
  next
    case (AtSelect ww)
    with qsel h ws show ?thesis
      by (simp add: step_def worker_at_def)
  next
    case (InDone ww)
    with nd ws show ?thesis by simp
  next
    case (InDefault ww)
    with qreq h ws show ?thesis
      by (simp add: step_def worker_at_def)
  next
    case Returned
    then show ?thesis .
  qed
  with ret ws have d: "drained (trace s) \<noteq> []" by simp
  with iq have qc: "qclosed s" and qe: "queue s = []"
    by (auto simp: invQ_def)
  from qc ip have mr: "mainpc s = AtReturn" and nl: "\<not> producer_live s"
    by (auto simp: invP_def)
  with ip n have "\<not> prod_i s < 4" by (auto simp: invP_def)
  with le have pi: "prod_i s = 4" by simp
  from iq have "enqueued (trace s) = [1..prod_i s - 1]"
    and "enqueued (trace s) = dequeued (trace s) @ queue s"
    unfolding invQ_def by blast+
  with pi qe have dq: "dequeued (trace s) = [1, 2, 3]"
    by (simp add: upto.simps)
  from ex ws p dq have e: "executed_by 0 (trace s) = [1, 2, 3]" by simp
  from il ws p have l: "limit s = 0" by (simp add: invL_def live_def)
  have "steps_left s = 0"
    using pi n qe ws p nl mr by (simp add: steps_left_def)
  with e dq ws p qe qc l h show ?thesis by simp
qed


lemma steps_left_0_quiescent:
  assumes si: "scenario_inv s" and z: "steps_left s = 0"
  shows "quiescent s"
proof -
  from si obtain p where ws: "workers s = [p]"
    by (cases "workers s") (auto simp: scenario_inv_def)
  from z ws have "p = Returned"
    by (cases p) (simp_all add: steps_left_def)
  moreover from z have "\<not> producer_live s" "mainpc s = AtReturn"
    by (cases "mainpc s"; simp add: steps_left_def split: if_splits)+
  ultimately show ?thesis
    using ws
    by (simp add: quiescent_def step_def producer_send_def producer_return_def main_step_def
        worker_at_def)
qed

lemma executed_prefix:
  assumes i: "invariant 1 s" and si: "scenario_inv s"
  shows "take (length (executed_by 0 (trace s))) [1, 2, 3] = executed_by 0 (trace s)"
proof -
  from i have e: "enqueued (trace s) = [1..prod_i s - 1]"
    and f: "enqueued (trace s) = dequeued (trace s) @ queue s" and lo: "1 \<le> prod_i s"
    unfolding invariant_def invQ_def by blast+
  from si have hi: "prod_i s \<le> 4"
    and ex: "executed_by 0 (trace s) @ inflight (workers s ! 0) = dequeued (trace s)"
    by (simp_all add: scenario_inv_def)
  from lo hi have "prod_i s = 1 \<or> prod_i s = 2 \<or> prod_i s = 3 \<or> prod_i s = 4"
    by arith
  then obtain rest where "enqueued (trace s) @ rest = [1, 2, 3]"
    using e by (auto simp: upto.simps)
  with f ex have "executed_by 0 (trace s) @ (inflight (workers s ! 0) @ queue s @ rest) = [1, 2, 3]"
    by (metis append.assoc)
  then have "take (length (executed_by 0 (trace s)))
      (executed_by 0 (trace s) @ (inflight (workers s ! 0) @ queue s @ rest)) =
      take (length (executed_by 0 (trace s))) [1, 2, 3]"
    by simp
  then show ?thesis by simp
qed

text \<open>
  Claim C7. In the scenario (capacity 2, one worker, jobs 1, 2, 3 sent and the queue
  then closed, Stop never called, downstream calls that succeed), whatever the
  interleaving of the producer, \<open>main\<close> and the worker: the jobs the worker has
  executed are at every moment a prefix of 1, 2, 3; no run has more than 16 steps; a
  run can go no further exactly when it has taken 16 steps; and then the worker has
  executed the jobs 1, 2, 3 in this order and has returned, the queue is closed and
  empty, and the counter of the wait group is 0.
\<close>

theorem scenario_fifo:
  assumes "run es scenario = Some s" and "list_all scenario_event es"
  shows "length es \<le> 16
    \<and> take (length (executed_by 0 (trace s))) [1, 2, 3] = executed_by 0 (trace s)
    \<and> quiescent s = (length es = 16)
    \<and> (quiescent s \<longrightarrow>
         executed_by 0 (trace s) = [1, 2, 3] \<and> dequeued (trace s) = [1, 2, 3]
         \<and> workers s = [Returned] \<and> queue s = [] \<and> qclosed s \<and> limit s = 0
         \<and> halted s = None)"
proof -
  from scenario_initial have i0: "invariant 1 scenario" and si0: "scenario_inv scenario"
    and m0: "steps_left scenario = 16"
    by simp_all
  from scenario_run [OF i0 si0 assms(2) assms(1)] m0
  have i: "invariant 1 s" and si: "scenario_inv s" and m: "steps_left s + length es = 16"
    by simp_all
  from m have le: "length es \<le> 16" by simp
  have q: "quiescent s = (length es = 16)"
  proof
    assume "quiescent s"
    from scenario_quiescent [OF i si this] m show "length es = 16" by simp
  next
    assume "length es = 16"
    with m have "steps_left s = 0" by simp
    from steps_left_0_quiescent [OF si this] show "quiescent s" .
  qed
  from le executed_prefix [OF i si] q scenario_quiescent [OF i si] show ?thesis
    by blast
qed

text \<open>
  The theorem of claim C7 at one interleaving of the scenario, run to its end.
\<close>

theorem scenario_fifo_witness:
  "run [Send, Send, Range 0, Select 0, Request 0 GetOk, Send, ProducerReturn, Main, Main,
        Range 0, Select 0, Request 0 GetOk, Range 0, Select 0, Request 0 GetOk, Range 0]
       scenario =
     Some \<lparr>cap = 2, queue = [], qclosed = True, prod_i = 4, prod_n = 4,
           producer_live = False, wg = 0, done_ch = 0, next_chan = 1, closed_chans = {},
           stops = [], workers = [Returned], wgroups = [], mainpc = AtReturn, limit = 0,
           halted = None,
           trace = [Enqueued 1, Enqueued 2, Dequeued 0 1, Executed 0 1, Enqueued 3,
                    Dequeued 0 2, Executed 0 2, Dequeued 0 3, Executed 0 3, Drained 0]\<rparr>
   \<and> list_all scenario_event
       [Send, Send, Range 0, Select 0, Request 0 GetOk, Send, ProducerReturn, Main, Main,
        Range 0, Select 0, Request 0 GetOk, Range 0, Select 0, Request 0 GetOk, Range 0]
   \<and> quiescent
       \<lparr>cap = 2, queue = [], qclosed = True, prod_i = 4, prod_n = 4,
        producer_live = False, wg = 0, done_ch = 0, next_chan = 1, closed_chans = {},
        stops = [], workers = [Returned], wgroups = [], mainpc = AtReturn, limit = 0,
        halted = None,
        trace = [Enqueued 1, Enqueued 2, Dequeued 0 1, Executed 0 1, Enqueued 3,
                 Dequeued 0 2, Executed 0 2, Dequeued 0 3, Executed 0 3, Drained 0]\<rparr>
   \<and> executed_by 0
       [Enqueued 1, Enqueued 2, Dequeued 0 1, Executed 0 1, Enqueued 3,
        Dequeued 0 2, Executed 0 2, Dequeued 0 3, Executed 0 3, Drained 0] = [1, 2, 3]"
proof -
  have r: "run [Send, Send, Range 0, Select 0, Request 0 GetOk, Send, ProducerReturn, Main, Main,
        Range 0, Select 0, Request 0 GetOk, Range 0, Select 0, Request 0 GetOk, Range 0]
       scenario =
     Some \<lparr>cap = 2, queue = [], qclosed = True, prod_i = 4, prod_n = 4,
           producer_live = False, wg = 0, done_ch = 0, next_chan = 1, closed_chans = {},
           stops = [], workers = [Returned], wgroups = [], mainpc = AtReturn, limit = 0,
           halted = None,
           trace = [Enqueued 1, Enqueued 2, Dequeued 0 1, Executed 0 1, Enqueued 3,
                    Dequeued 0 2, Executed 0 2, Dequeued 0 3, Executed 0 3, Drained 0]\<rparr>"
    by (simp add: step_defs scenario_def)
  have ev: "list_all scenario_event
       [Send, Send, Range 0, Select 0, Request 0 GetOk, Send, ProducerReturn, Main, Main,
        Range 0, Select 0, Request 0 GetOk, Range 0, Select 0, Request 0 GetOk, Range 0]"
    by simp
  from scenario_fifo [OF r ev] r ev show ?thesis
    by simp
qed

section \<open>Jobs taken once the done channel is closed\<close>

lemma dequeued_by_append: "dequeued_by w (xs @ ys) = dequeued_by w xs @ dequeued_by w ys"
  by (induction w xs rule: dequeued_by.induct) auto

lemma owed_le_1: "owed p \<le> 1"
  by (cases p) auto

lemma owed_frame:
  "workers s' = workers s \<Longrightarrow> dequeued_by w (trace s') = dequeued_by w (trace s) \<Longrightarrow>
   length (dequeued_by w (trace s')) + jobs_owed s' w
     \<le> length (dequeued_by w (trace s)) + jobs_owed s w"
  by (simp add: jobs_owed_def worker_at_def)

lemma owed_spawn:
  "workers s' = workers s @ [AtRange] \<Longrightarrow> trace s' = trace s \<Longrightarrow>
   length (dequeued_by w (trace s')) + jobs_owed s' w
     \<le> length (dequeued_by w (trace s)) + jobs_owed s w"
  by (auto simp: jobs_owed_def worker_at_def nth_append owed_le_1)

lemma owed_update:
  assumes "v < length (workers s)" and "workers s' = (workers s)[v := p]"
    and "length (dequeued_by v (trace s')) + owed p
          \<le> length (dequeued_by v (trace s)) + owed (workers s ! v)"
    and "w \<noteq> v \<Longrightarrow> dequeued_by w (trace s') = dequeued_by w (trace s)"
  shows "length (dequeued_by w (trace s')) + jobs_owed s' w
     \<le> length (dequeued_by w (trace s)) + jobs_owed s w"
  using assms by (cases "w = v") (auto simp: jobs_owed_def worker_at_def)

lemma owed_Done:
  assumes "v < length (workers s)"
  shows "length (dequeued_by w (trace (limit_Done v s))) + jobs_owed (limit_Done v s) w
     \<le> length (dequeued_by w (trace s)) + jobs_owed s w"
proof (cases "limit s - 1 < 0")
  case True
  then show ?thesis
    by (intro owed_frame) (simp_all add: limit_Done_def)
next
  case False
  with assms show ?thesis
    by (intro owed_update [of v s _ Returned]) (simp_all add: limit_Done_def)
qed

lemma owed_trans:
  "length (dequeued_by w (trace s1)) + jobs_owed s1 w
     \<le> length (dequeued_by w (trace s)) + jobs_owed s w \<Longrightarrow>
   length (dequeued_by w (trace s')) + jobs_owed s' w
     \<le> length (dequeued_by w (trace s1)) + jobs_owed s1 w \<Longrightarrow>
   length (dequeued_by w (trace s')) + jobs_owed s' w
     \<le> length (dequeued_by w (trace s)) + jobs_owed s w"
  by simp

lemma owed_Range:
  assumes st: "step (Range v) s = Some s'"
  shows "length (dequeued_by w (trace s')) + jobs_owed s' w
     \<le> length (dequeued_by w (trace s)) + jobs_owed s w"
proof -
  from st have at: "worker_at s v = Some AtRange" and h: "halted s = None"
    by (auto simp: step_def split: if_splits option.splits wpc.splits)
  then have v: "v < length (workers s)" "workers s ! v = AtRange"
    by (auto dest: worker_atD)
  from st at h have r: "startWorker_range v s = Some s'"
    by (simp add: step_def)
  show ?thesis
  proof (cases "queue s")
    case Nil
    with r have s': "s' = limit_Done v (s\<lparr>trace := trace s @ [Drained v]\<rparr>)"
      by (auto simp: startWorker_range_def chan_recv_def split: if_splits)
    have "length (dequeued_by w (trace (s\<lparr>trace := trace s @ [Drained v]\<rparr>)))
        + jobs_owed (s\<lparr>trace := trace s @ [Drained v]\<rparr>) w
        \<le> length (dequeued_by w (trace s)) + jobs_owed s w"
      by (intro owed_frame) (simp_all add: dequeued_by_append)
    moreover have "length (dequeued_by w (trace s')) + jobs_owed s' w
        \<le> length (dequeued_by w (trace (s\<lparr>trace := trace s @ [Drained v]\<rparr>)))
        + jobs_owed (s\<lparr>trace := trace s @ [Drained v]\<rparr>) w"
      unfolding s' using v by (intro owed_Done) simp_all
    ultimately show ?thesis by simp
  next
    case (Cons j js)
    with r have s': "s' = s\<lparr>queue := js, workers := (workers s)[v := AtSelect j],
        trace := trace s @ [Dequeued v j]\<rparr>"
      by (simp add: startWorker_range_def chan_recv_def)
    from v show ?thesis
      unfolding s'
      by (intro owed_update [of v s _ "AtSelect j"]) (simp_all add: dequeued_by_append)
  qed
qed

lemma owed_Select:
  assumes st: "step (Select v) s = Some s'" and cl: "done_ch s \<in> closed_chans s"
  shows "length (dequeued_by w (trace s')) + jobs_owed s' w
     \<le> length (dequeued_by w (trace s)) + jobs_owed s w"
proof -
  from st obtain ww where at: "worker_at s v = Some (AtSelect ww)" and h: "halted s = None"
    by (auto simp: step_def split: if_splits option.splits wpc.splits)
  then have v: "v < length (workers s)" "workers s ! v = AtSelect ww"
    by (auto dest: worker_atD)
  from st at h cl have "workers s' = (workers s)[v := InDone ww]" "trace s' = trace s"
    by (auto simp: step_def startWorker_select_def split: option.splits)
  with v show ?thesis
    by (intro owed_update [of v s _ "InDone ww"]) simp_all
qed

lemma owed_Request:
  assumes st: "step (Request v r) s = Some s'"
  shows "length (dequeued_by w (trace s')) + jobs_owed s' w
     \<le> length (dequeued_by w (trace s)) + jobs_owed s w"
proof (cases r)
  case GetErr
  with st show ?thesis
    by (intro owed_frame)
       (auto simp: step_def startWorker_done_def startWorker_default_def request_def
          dequeued_by_append split: if_splits option.splits wpc.splits)
next
  case GetOk
  from st obtain p where at: "worker_at s v = Some p" and h: "halted s = None"
    by (auto simp: step_def split: if_splits option.splits)
  then have v: "v < length (workers s)" "workers s ! v = p"
    by (auto dest: worker_atD)
  let ?s1 = "s\<lparr>trace := trace s @ [Executed v (hd (inflight p))]\<rparr>"
  have one: "length (dequeued_by w (trace ?s1)) + jobs_owed ?s1 w
        \<le> length (dequeued_by w (trace s)) + jobs_owed s w"
    by (intro owed_frame) (simp_all add: dequeued_by_append)
  show ?thesis
  proof (cases p)
    case (InDone ww)
    with st at h GetOk have s': "s' = limit_Done v ?s1"
      by (simp add: step_def startWorker_done_def request_def)
    have "length (dequeued_by w (trace s')) + jobs_owed s' w
        \<le> length (dequeued_by w (trace ?s1)) + jobs_owed ?s1 w"
      unfolding s' using v by (intro owed_Done) simp_all
    with one show ?thesis by simp
  next
    case (InDefault ww)
    with st at h GetOk have s': "s' = ?s1\<lparr>workers := (workers s)[v := AtRange]\<rparr>"
      by (simp add: step_def startWorker_default_def request_def)
    from v InDefault have "length (dequeued_by w (trace s')) + jobs_owed s' w
        \<le> length (dequeued_by w (trace ?s1)) + jobs_owed ?s1 w"
      unfolding s'
      by (intro owed_update [of v ?s1 _ AtRange]) simp_all
    with one show ?thesis by simp
  qed (use st at h in \<open>auto simp: step_def\<close>)
qed

lemma step_done_ch: "step e s = Some s' \<Longrightarrow> e \<noteq> StartRequest \<Longrightarrow> done_ch s' = done_ch s"
  by (cases e)
     (auto simp: step_defs Let_def
        split: if_splits option.splits wpc.splits hpc.splits mpc.splits send.splits
          list.splits get_result.splits)

lemma owed_step:
  assumes st: "step e s = Some s'" and ns: "e \<noteq> StartRequest"
    and cl: "done_ch s \<in> closed_chans s"
  shows "done_ch s' \<in> closed_chans s'
    \<and> length (dequeued_by w (trace s')) + jobs_owed s' w
        \<le> length (dequeued_by w (trace s)) + jobs_owed s w"
proof -
  from step_done_ch [OF st ns] closed_step [OF st cl]
  have c': "done_ch s' \<in> closed_chans s'" by simp
  have "length (dequeued_by w (trace s')) + jobs_owed s' w
        \<le> length (dequeued_by w (trace s)) + jobs_owed s w"
  proof (cases e)
    case Send
    with st show ?thesis
      by (intro owed_frame)
         (auto simp: step_def producer_send_def chan_send_def dequeued_by_append
            split: if_splits send.splits)
  next
    case ProducerReturn
    with st show ?thesis
      by (intro owed_frame) (auto simp: step_def producer_return_def split: if_splits)
  next
    case Main
    with st show ?thesis
      using owed_frame [of s' s w] owed_spawn [of s' s w]
      by (auto simp: step_def main_step_def spawn_worker_def split: if_splits mpc.splits)
  next
    case MainReturn
    with st show ?thesis
      by (intro owed_frame) (auto simp: step_def main_return_def split: if_splits)
  next
    case (Wgroup k)
    with st show ?thesis
      by (intro owed_spawn) (auto simp: step_def wgroup_iter_def spawn_worker_def split: if_splits)
  next
    case (Range v)
    with st owed_Range show ?thesis by simp
  next
    case (Select v)
    with st cl owed_Select show ?thesis by simp
  next
    case (Request v r)
    with st owed_Request show ?thesis by simp
  next
    case StopRequest
    with st show ?thesis
      by (intro owed_frame)
         (auto simp: step_def stop_send_def Let_def dequeued_by_append split: if_splits)
  next
    case (StopClose h)
    with st show ?thesis
      by (intro owed_frame)
         (auto simp: step_def stop_close_def split: if_splits option.splits hpc.splits)
  next
    case StartRequest
    with ns show ?thesis by simp
  next
    case AddWorkerRequest
    with st show ?thesis
      by (intro owed_spawn) (auto simp: step_def addWorker_def spawn_worker_def split: if_splits)
  next
    case ServerFail
    with st show ?thesis
      by (intro owed_frame) (auto simp: step_def split: if_splits)
  qed
  with c' show ?thesis by simp
qed

lemma owed_run:
  "run es s = Some s' \<Longrightarrow> StartRequest \<notin> set es \<Longrightarrow> done_ch s \<in> closed_chans s \<Longrightarrow>
   length (dequeued_by w (trace s')) + jobs_owed s' w
     \<le> length (dequeued_by w (trace s)) + jobs_owed s w"
proof (induction es arbitrary: s)
  case Nil
  then show ?case by simp
next
  case (Cons e es)
  from Cons.prems obtain s1 where s1: "step e s = Some s1" and r: "run es s1 = Some s'"
    by (auto split: option.splits)
  from Cons.prems have ne: "e \<noteq> StartRequest" and nes: "StartRequest \<notin> set es"
    by auto
  from owed_step [OF s1 ne Cons.prems(3), of w]
  have c1: "done_ch s1 \<in> closed_chans s1"
    and o1: "length (dequeued_by w (trace s1)) + jobs_owed s1 w
        \<le> length (dequeued_by w (trace s)) + jobs_owed s w"
    by simp_all
  from Cons.IH [OF r nes c1] o1 show ?case by simp
qed

text \<open>
  What the code does guarantee about jobs after a stop. From any state in which the
  channel \<^verbatim>\<open>c.done\<close> points to is closed, and along any run in which no \<^verbatim>\<open>/start\<close>
  request replaces that channel, every worker takes at most one more job from the
  queue, and none when it already holds a job it took before; this includes workers
  that \<^verbatim>\<open>addWorker\<close> or a running \<^verbatim>\<open>wgroup\<close> starts during the run.
\<close>

theorem one_job_after_close:
  assumes "run es s = Some s'" and "StartRequest \<notin> set es" and "done_ch s \<in> closed_chans s"
  shows "length (dequeued_by w (trace s')) \<le> length (dequeued_by w (trace s)) + jobs_owed s w
    \<and> jobs_owed s w \<le> 1"
  using owed_run [OF assms, of w] owed_le_1
  by (auto simp: jobs_owed_def split: option.splits)


text \<open>
  The theorem at a state after a stop has closed the channel: worker 1 and a worker
  added afterwards each take one job and return.
\<close>

theorem one_job_after_close_witness:
  "run [Range 1, Select 1, Request 1 GetOk, AddWorkerRequest, Range 2, Select 2,
        Request 2 GetOk]
       (init\<lparr>queue := [1, 2, 3], prod_i := 4, closed_chans := {0}, stops := [Finished],
             workers := [InDone 0, AtRange], mainpc := InWgroup 2, limit := 2,
             trace := [Enqueued 0, Enqueued 1, Enqueued 2, Enqueued 3, StopCalled 0,
                       Dequeued 0 0]\<rparr>) =
     Some (init\<lparr>queue := [3], prod_i := 4, closed_chans := {0}, stops := [Finished],
                workers := [InDone 0, Returned, Returned], mainpc := InWgroup 2, limit := 1,
                trace := [Enqueued 0, Enqueued 1, Enqueued 2, Enqueued 3, StopCalled 0,
                          Dequeued 0 0, Dequeued 1 1, Executed 1 1, Dequeued 2 2,
                          Executed 2 2]\<rparr>)
   \<and> dequeued_by 1 [Enqueued 0, Enqueued 1, Enqueued 2, Enqueued 3, StopCalled 0,
                     Dequeued 0 0, Dequeued 1 1, Executed 1 1, Dequeued 2 2,
                     Executed 2 2] = [1]
   \<and> dequeued_by 2 [Enqueued 0, Enqueued 1, Enqueued 2, Enqueued 3, StopCalled 0,
                     Dequeued 0 0, Dequeued 1 1, Executed 1 1, Dequeued 2 2,
                     Executed 2 2] = [2]"
proof -
  have r: "run [Range 1, Select 1, Request 1 GetOk, AddWorkerRequest, Range 2, Select 2,
        Request 2 GetOk]
       (init\<lparr>queue := [1, 2, 3], prod_i := 4, closed_chans := {0}, stops := [Finished],
             workers := [InDone 0, AtRange], mainpc := InWgroup 2, limit := 2,
             trace := [Enqueued 0, Enqueued 1, Enqueued 2, Enqueued 3, StopCalled 0,
                       Dequeued 0 0]\<rparr>) =
     Some (init\<lparr>queue := [3], prod_i := 4, closed_chans := {0}, stops := [Finished],
                workers := [InDone 0, Returned, Returned], mainpc := InWgroup 2, limit := 1,
                trace := [Enqueued 0, Enqueued 1, Enqueued 2, Enqueued 3, StopCalled 0,
                          Dequeued 0 0, Dequeued 1 1, Executed 1 1, Dequeued 2 2,
                          Executed 2 2]\<rparr>)"
    by (simp add: step_defs init_def initial_def)
  from one_job_after_close [OF r, of 1] one_job_after_close [OF r, of 2] r show ?thesis
    by (simp add: init_def initial_def)
qed

end
